theory Spec2Isabelle
  imports Complex_Main
begin

section \<open>Triangular matrix power (MatrixPowerBase.h): a shallow embedding\<close>

text \<open>
  The development follows \<^verbatim>\<open>unsupported/Eigen/src/MatrixFunctions/MatrixPowerBase.h\<close>.
  Floating-point values are idealised: a \<^verbatim>\<open>RealScalar\<close> is a \<^typ>\<open>real\<close>, a
  \<^verbatim>\<open>Scalar\<close> is an element of a real normed field (\<^typ>\<open>real\<close> or \<^typ>\<open>complex\<close>),
  decimal literals denote their exact decimal value, \<^verbatim>\<open>M_PI\<close> is \<^term>\<open>pi\<close>, and
  rounding, infinities and NaN are not modelled. C++ \<^verbatim>\<open>int\<close> is \<^typ>\<open>int\<close> (the
  degrees and counters stay far from the overflow range).
\<close>

subsection \<open>Pad\'e degree selection\<close>

text \<open>
  The three overloads of \<^verbatim>\<open>matrix_power_get_pade_degree\<close> (float, double, long double)
  run the same loop over their own table:
  \<^verbatim>\<open>
  int degree = 3;
  for (; degree <= maxPadeDegree; ++degree)
    if (normIminusT <= maxNormForPade[degree - 3])
      break;
  return degree;
  \<close>
\<close>

function pade_degree_loop :: "real list \<Rightarrow> int \<Rightarrow> real \<Rightarrow> int \<Rightarrow> int" where
  "pade_degree_loop maxNormForPade maxPadeDegree normIminusT degree =
     (if degree \<le> maxPadeDegree then
        (if normIminusT \<le> maxNormForPade ! nat (degree - 3) then degree
         else pade_degree_loop maxNormForPade maxPadeDegree normIminusT (degree + 1))
      else degree)"
  by pat_completeness auto
termination
  by (relation "measure (\<lambda>(tbl, m, n, d). nat (m + 1 - d))") auto

declare pade_degree_loop.simps [simp del]

definition maxNormForPade_float :: "real list" where
  "maxNormForPade_float = [0.28064004, 0.43386528]"

definition maxNormForPade_double :: "real list" where
  "maxNormForPade_double =
     [0.01884160592658218, 0.06038881904059573, 0.1239917516308172,
      0.1999045567181744, 0.2789358995219730]"

text \<open>The long double tables, selected by the macro \<^verbatim>\<open>LDBL_MANT_DIG\<close> (a parameter here).\<close>

definition maxPadeDegree_long_double :: "nat \<Rightarrow> int" where
  "maxPadeDegree_long_double LDBL_MANT_DIG =
     (if LDBL_MANT_DIG = 53 then 7
      else if LDBL_MANT_DIG \<le> 64 then 8
      else if LDBL_MANT_DIG \<le> 106 then 10
      else 10)"

definition maxNormForPade_long_double :: "nat \<Rightarrow> real list" where
  "maxNormForPade_long_double LDBL_MANT_DIG =
     (if LDBL_MANT_DIG = 53 then
        [0.01884160592658218, 0.06038881904059573, 0.1239917516308172,
         0.1999045567181744, 0.2789358995219730]
      else if LDBL_MANT_DIG \<le> 64 then
        [0.0063854693117491799460, 0.026394893435456973676,
         0.064216043030404063729, 0.11701165502926694307, 0.17904284231268670284,
         0.24471944416607995472]
      else if LDBL_MANT_DIG \<le> 106 then
        [0.00010007161601787493236741409687186,
         0.0010007161601787493236741409687186, 0.0047069769360887572939882574746264,
         0.013220386624169159689406653101695,
         0.028063482381631737920612944054906, 0.049625993951953473052385361085058,
         0.077367040706027886224557538328171,
         0.11016843812851143391275867258512]
      else
        [0.00005524506147036624377378713555116378,
         0.0006640600568157479679823602193345995, 0.003227716520106894279249709728084626,
         0.009619593944683432960546978734646284, 0.02134595382433742403911124458161147,
         0.03908166513900489428442993794761185, 0.06266780814639442865832535460550138,
         0.09134603732914548552537150753385375])"

text \<open>
  The real scalar type that selects the overload. \<^verbatim>\<open>LongDouble m\<close> is long double on
  a platform whose \<^verbatim>\<open>LDBL_MANT_DIG\<close> is \<open>m\<close>.
\<close>

datatype real_scalar_type = Float | Double | LongDouble nat

fun maxPadeDegree :: "real_scalar_type \<Rightarrow> int" where
  "maxPadeDegree Float = 4"
| "maxPadeDegree Double = 7"
| "maxPadeDegree (LongDouble m) = maxPadeDegree_long_double m"

fun padeTable :: "real_scalar_type \<Rightarrow> real list" where
  "padeTable Float = maxNormForPade_float"
| "padeTable Double = maxNormForPade_double"
| "padeTable (LongDouble m) = maxNormForPade_long_double m"

definition matrix_power_get_pade_degree :: "real_scalar_type \<Rightarrow> real \<Rightarrow> int" where
  "matrix_power_get_pade_degree ty normIminusT =
     pade_degree_loop (padeTable ty) (maxPadeDegree ty) normIminusT 3"

text \<open>The threshold tabulated for a degree: \<^verbatim>\<open>maxNormForPade[degree - 3]\<close>.\<close>

definition padeThreshold :: "real_scalar_type \<Rightarrow> int \<Rightarrow> real" where
  "padeThreshold ty degree = padeTable ty ! nat (degree - 3)"

subsection \<open>Scalars and the numeric library\<close>

text \<open>
  The code is a template over \<^verbatim>\<open>Scalar\<close>. The functions it takes from the C++ library
  and from the rest of Eigen are parameters: \<^verbatim>\<open>std::pow\<close>, \<^verbatim>\<open>std::log\<close>,
  \<^verbatim>\<open>std::exp\<close>, \<^verbatim>\<open>std::sinh\<close> and \<^verbatim>\<open>internal::atanh2\<close> (whose definition is
  outside this file).
\<close>

record 'a libm =
  pow_s :: "'a \<Rightarrow> real \<Rightarrow> 'a"
  log_s :: "'a \<Rightarrow> 'a"
  exp_s :: "'a \<Rightarrow> 'a"
  sinh_s :: "'a \<Rightarrow> 'a"
  atanh2_s :: "'a \<Rightarrow> 'a \<Rightarrow> 'a"

text \<open>
  What depends on the kind of scalar: \<^verbatim>\<open>NumTraits<Scalar>::IsComplex\<close>,
  \<^verbatim>\<open>internal::imag\<close> and the constructor \<^verbatim>\<open>Scalar(re, im)\<close> of a complex scalar.
\<close>

record 'a scalar_ops = "'a libm" +
  IsComplex :: bool
  imag_s :: "'a \<Rightarrow> real"
  Scalar_of :: "real \<Rightarrow> real \<Rightarrow> 'a"

definition real_scalar :: "real libm \<Rightarrow> real scalar_ops" where
  "real_scalar L =
     \<lparr>pow_s = pow_s L, log_s = log_s L, exp_s = exp_s L, sinh_s = sinh_s L,
      atanh2_s = atanh2_s L,
      IsComplex = False, imag_s = (\<lambda>x. 0), Scalar_of = (\<lambda>re im. re)\<rparr>"

definition complex_scalar :: "complex libm \<Rightarrow> complex scalar_ops" where
  "complex_scalar L =
     \<lparr>pow_s = pow_s L, log_s = log_s L, exp_s = exp_s L, sinh_s = sinh_s L,
      atanh2_s = atanh2_s L,
      IsComplex = True, imag_s = Im, Scalar_of = Complex\<rparr>"

text \<open>
  The exact functions on the reals, for the concrete cases: \<^verbatim>\<open>std::pow\<close> and
  \<^verbatim>\<open>std::log\<close> as C++ has them on a positive argument. \<^verbatim>\<open>internal::atanh2\<close>
  stays a parameter.
\<close>

definition exact_real_libm :: "(real \<Rightarrow> real \<Rightarrow> real) \<Rightarrow> real libm" where
  "exact_real_libm atanh2 =
     \<lparr>pow_s = (\<lambda>x p. x powr p), log_s = ln, exp_s = exp, sinh_s = sinh,
      atanh2_s = atanh2\<rparr>"

text \<open>
  The same over the complex numbers, with the principal branch of the logarithm and the
  power \<open>z^p = exp (p * log z)\<close> of a non-zero \<open>z\<close>.
\<close>

definition log_complex :: "complex \<Rightarrow> complex" where
  "log_complex z = Complex (ln (cmod z)) (Arg z)"

definition exact_complex_libm :: "(complex \<Rightarrow> complex \<Rightarrow> complex) \<Rightarrow> complex libm" where
  "exact_complex_libm atanh2 =
     \<lparr>pow_s = (\<lambda>z p. exp (of_real p * log_complex z)), log_s = log_complex, exp_s = exp,
      sinh_s = sinh, atanh2_s = atanh2\<rparr>"

text \<open>
  Modelled from the spec: \<^verbatim>\<open>internal::atanh2\<close> is missing from the file; the spec gives
  \<^verbatim>\<open>atanh2(a,b) = 0.5*log((b+a)/(b-a))\<close>. Used for concrete instances only.
\<close>

definition atanh2_real :: "real \<Rightarrow> real \<Rightarrow> real" where
  "atanh2_real a b = 0.5 * ln ((b + a) / (b - a))"

definition atanh2_complex :: "complex \<Rightarrow> complex \<Rightarrow> complex" where
  "atanh2_complex a b = 0.5 * log_complex ((b + a) / (b - a))"

definition abs_s :: "'a::real_normed_field \<Rightarrow> real" where
  "abs_s x = norm x"

text \<open>
  A floating-point division by zero does not trap; it yields an infinity or a NaN. The
  model makes it visible as an error value.
\<close>

datatype error = DivisionByZero

definition sdiv :: "'a::real_normed_field \<Rightarrow> 'a \<Rightarrow> error + 'a" where
  "sdiv x y = (if y = 0 then Inl DivisionByZero else Inr (x / y))"

text \<open>
  \<^verbatim>\<open>matrix_power_unwinder<Scalar,IsComplex>::run\<close>: the general template adds
  \<^verbatim>\<open>Scalar(0, M_PI*unwindingNumber)\<close>, the specialisation for \<^verbatim>\<open>IsComplex = 0\<close>
  ignores the unwinding number.
\<close>

definition matrix_power_unwinder :: "'a::real_normed_field scalar_ops \<Rightarrow> 'a \<Rightarrow> 'a \<Rightarrow> int \<Rightarrow> 'a" where
  "matrix_power_unwinder F eival eival0 unwindingNumber =
     (if IsComplex F then
        atanh2_s F (eival - eival0) (eival + eival0) + Scalar_of F 0 (pi * of_int unwindingNumber)
      else atanh2_s F (eival - eival0) (eival + eival0))"

subsection \<open>Dense matrices\<close>

text \<open>
  A matrix is the list of its rows. Eigen's \<^verbatim>\<open>coeff\<close> and \<^verbatim>\<open>coeffRef\<close> do not check
  their indices: an access out of range is undefined behaviour in the source, and the
  theorems below state the dimensions they need.
\<close>

type_synonym 'a matrix = "'a list list"

definition rows :: "'a matrix \<Rightarrow> nat" where
  "rows M = length M"

definition cols :: "'a matrix \<Rightarrow> nat" where
  "cols M = (case M of [] \<Rightarrow> 0 | r # rs \<Rightarrow> length r)"

definition has_dims :: "'a matrix \<Rightarrow> nat \<Rightarrow> nat \<Rightarrow> bool" where
  "has_dims M r c = (length M = r \<and> list_all (\<lambda>row. length row = c) M)"

definition coeff :: "'a matrix \<Rightarrow> nat \<Rightarrow> nat \<Rightarrow> 'a" where
  "coeff M i j = M ! i ! j"

definition set_coeff :: "'a matrix \<Rightarrow> nat \<Rightarrow> nat \<Rightarrow> 'a \<Rightarrow> 'a matrix" where
  "set_coeff M i j v = M[i := (M ! i)[j := v]]"

definition diagonal :: "'a matrix \<Rightarrow> 'a list" where
  "diagonal M = map (\<lambda>i. coeff M i i) [0..<min (rows M) (cols M)]"

definition Identity :: "nat \<Rightarrow> nat \<Rightarrow> 'a::real_normed_field matrix" where
  "Identity r c = map (\<lambda>i. map (\<lambda>j. if i = j then 1 else 0) [0..<c]) [0..<r]"

definition mat_add :: "'a::real_normed_field matrix \<Rightarrow> 'a matrix \<Rightarrow> 'a matrix" where
  "mat_add A B = map2 (map2 (+)) A B"

definition mat_sub :: "'a::real_normed_field matrix \<Rightarrow> 'a matrix \<Rightarrow> 'a matrix" where
  "mat_sub A B = map2 (map2 (-)) A B"

definition smult :: "real \<Rightarrow> 'a::real_normed_field matrix \<Rightarrow> 'a matrix" where
  "smult c A = map (map (\<lambda>x. of_real c * x)) A"

definition mat_mul :: "'a::real_normed_field matrix \<Rightarrow> 'a matrix \<Rightarrow> 'a matrix" where
  "mat_mul A B =
     map (\<lambda>i. map (\<lambda>j. sum_list (map (\<lambda>k. coeff A i k * coeff B k j) [0..<cols A]))
                [0..<cols B]) [0..<rows A]"

definition triangularView_Upper :: "'a::real_normed_field matrix \<Rightarrow> 'a matrix" where
  "triangularView_Upper M =
     map (\<lambda>i. map (\<lambda>j. if i \<le> j then coeff M i j else 0) [0..<cols M]) [0..<rows M]"

text \<open>\<^verbatim>\<open>maxCoeff\<close> of a non-empty array (Eigen asserts that it is not empty).\<close>

fun maxCoeff :: "real list \<Rightarrow> real" where
  "maxCoeff [] = 0"
| "maxCoeff (x # xs) = fold max xs x"

text \<open>\<^verbatim>\<open>M.cwiseAbs().colwise().sum().maxCoeff()\<close>\<close>

definition colwise_abs_sum_max :: "'a::real_normed_field matrix \<Rightarrow> real" where
  "colwise_abs_sum_max M =
     maxCoeff (map (\<lambda>j. sum_list (map (\<lambda>i. abs_s (coeff M i j)) [0..<rows M])) [0..<cols M])"

subsection \<open>The 2x2 block solver\<close>

text \<open>
  The three branches of the loop body of \<^verbatim>\<open>compute2x2\<close>, in the order of the source:
  \<^verbatim>\<open>
  if (m_A.coeff(i-1,i-1) == m_A.coeff(i,i)) ...
  else if (2*abs(m_A.coeff(i-1,i-1)) < abs(m_A.coeff(i,i))
           || 2*abs(m_A.coeff(i,i)) < abs(m_A.coeff(i-1,i-1))) ...
  else ...
  \<close>
\<close>

datatype pair_case = EqualDiag | WellSeparated | CloseUnequal

definition compute2x2_case :: "'a::real_normed_field \<Rightarrow> 'a \<Rightarrow> pair_case" where
  "compute2x2_case a b =
     (if a = b then EqualDiag
      else if 2 * abs_s a < abs_s b \<or> 2 * abs_s b < abs_s a then WellSeparated
      else CloseUnequal)"

text \<open>The value stored in \<^verbatim>\<open>res.coeffRef(i-1,i)\<close>; \<open>res\<close> already holds \<^verbatim>\<open>res(i,i)\<close>.\<close>

definition compute2x2_superdiag ::
  "'a::real_normed_field scalar_ops \<Rightarrow> 'a matrix \<Rightarrow> 'a list \<Rightarrow> real \<Rightarrow> nat \<Rightarrow> 'a matrix \<Rightarrow> error + 'a" where
  "compute2x2_superdiag F m_A logTdiag p i res =
     (case compute2x2_case (coeff m_A (i - 1) (i - 1)) (coeff m_A i i) of
        EqualDiag \<Rightarrow> Inr (of_real p * pow_s F (coeff m_A (i - 1) i) (p - 1))
      | WellSeparated \<Rightarrow>
          sdiv (coeff m_A (i - 1) i * (coeff res i i - coeff res (i - 1) (i - 1)))
               (coeff m_A i i - coeff m_A (i - 1) (i - 1))
      | CloseUnequal \<Rightarrow>
          (let unwindingNumber =
                 \<lceil>(imag_s F (logTdiag ! i - logTdiag ! (i - 1)) - pi) / (2 * pi)\<rceil>;
               w = matrix_power_unwinder F (coeff m_A i i) (coeff m_A (i - 1) (i - 1))
                     unwindingNumber
           in sdiv (coeff m_A (i - 1) i * of_real 2 *
                    exp_s F (of_real (0.5 * p) * (logTdiag ! i + logTdiag ! (i - 1))) *
                    sinh_s F (of_real p * w))
                   (coeff m_A i i - coeff m_A (i - 1) (i - 1))))"

definition compute2x2_step ::
  "'a::real_normed_field scalar_ops \<Rightarrow> 'a matrix \<Rightarrow> 'a list \<Rightarrow> real \<Rightarrow> nat \<Rightarrow> 'a matrix \<Rightarrow> error + 'a matrix" where
  "compute2x2_step F m_A logTdiag p i res =
     (let res1 = set_coeff res i i (pow_s F (coeff m_A i i) p)
      in case compute2x2_superdiag F m_A logTdiag p i res1 of
           Inl e \<Rightarrow> Inl e
         | Inr v \<Rightarrow> Inr (set_coeff res1 (i - 1) i v))"

text \<open>\<^verbatim>\<open>for (Index i=1; i < m_A.cols(); ++i)\<close>, over the list of its indices.\<close>

fun compute2x2_loop ::
  "'a::real_normed_field scalar_ops \<Rightarrow> 'a matrix \<Rightarrow> 'a list \<Rightarrow> real \<Rightarrow> nat list \<Rightarrow> 'a matrix \<Rightarrow> error + 'a matrix" where
  "compute2x2_loop F m_A logTdiag p [] res = Inr res"
| "compute2x2_loop F m_A logTdiag p (i # is) res =
     (case compute2x2_step F m_A logTdiag p i res of
        Inl e \<Rightarrow> Inl e
      | Inr res' \<Rightarrow> compute2x2_loop F m_A logTdiag p is res')"

definition compute2x2 ::
  "'a::real_normed_field scalar_ops \<Rightarrow> 'a matrix \<Rightarrow> 'a matrix \<Rightarrow> real \<Rightarrow> error + 'a matrix" where
  "compute2x2 F m_A res p =
     (let logTdiag = map (log_s F) (diagonal m_A);
          res0 = set_coeff res 0 0 (pow_s F (coeff m_A 0 0) p)
      in compute2x2_loop F m_A logTdiag p [1..<cols m_A] res0)"

subsection \<open>The Pad\'e evaluator\<close>

text \<open>
  The coefficient of the step \<open>i\<close> of the recurrence:
  \<^verbatim>\<open>i==1 ? -p : i&1 ? (-p-(i>>1))/(i<<1) : (p-(i>>1))/((i-1)<<1)\<close>
\<close>

definition padeCoeff :: "real \<Rightarrow> int \<Rightarrow> real" where
  "padeCoeff p i =
     (if i = 1 then - p
      else if i mod 2 \<noteq> 0 then (- p - of_int (i div 2)) / of_int (i * 2)
      else (p - of_int (i div 2)) / of_int ((i - 1) * 2))"

text \<open>
  \<^verbatim>\<open>for (--i; i; --i)\<close> with the triangular solver of Eigen as the parameter \<open>solve\<close>:
  \<open>solve U B\<close> stands for \<^verbatim>\<open>U.triangularView<Upper>().solve(B)\<close>.
\<close>

fun computePade_loop ::
  "('a matrix \<Rightarrow> 'a matrix \<Rightarrow> 'a matrix) \<Rightarrow> real \<Rightarrow> 'a::real_normed_field matrix \<Rightarrow> nat \<Rightarrow> 'a matrix \<Rightarrow> 'a matrix" where
  "computePade_loop solve p IminusT 0 res = res"
| "computePade_loop solve p IminusT (Suc k) res =
     computePade_loop solve p IminusT k
       (solve (triangularView_Upper (mat_add (Identity (rows IminusT) (cols IminusT)) res))
              (smult (padeCoeff p (int (Suc k))) IminusT))"

text \<open>The degree is at least 3 at every call, so \<open>2 * degree - 1\<close> is positive.\<close>

definition computePade ::
  "('a matrix \<Rightarrow> 'a matrix \<Rightarrow> 'a matrix) \<Rightarrow> int \<Rightarrow> 'a::real_normed_field matrix \<Rightarrow> real \<Rightarrow> 'a matrix" where
  "computePade solve degree IminusT p =
     (let i = degree * 2;
          res = smult ((p - of_int degree) / of_int ((i - 1) * 2)) IminusT;
          res = computePade_loop solve p IminusT (nat (i - 1)) res
      in mat_add res (Identity (rows IminusT) (cols IminusT)))"

subsection \<open>The scaling loop\<close>

text \<open>\<^verbatim>\<open>std::numeric_limits<RealScalar>::digits\<close> (IEEE single and double).\<close>

fun digits :: "real_scalar_type \<Rightarrow> nat" where
  "digits Float = 24"
| "digits Double = 53"
| "digits (LongDouble m) = m"

definition maxNormForPade :: "real_scalar_type \<Rightarrow> real" where
  "maxNormForPade ty =
     (if digits ty \<le> 24 then 0.43386528
      else if digits ty \<le> 53 then 0.2789358995219730
      else if digits ty \<le> 64 then 0.24471944416607995472
      else if digits ty \<le> 106 then 0.11016843812851143391275867258512
      else 0.09134603732914548552537150753385375)"

text \<open>
  The state of the \<^verbatim>\<open>while (true)\<close> loop of \<^verbatim>\<open>computeBig\<close>: the matrix \<open>T\<close>,
  \<^verbatim>\<open>hasExtraSquareRoot\<close> and \<^verbatim>\<open>numberOfSquareRoots\<close>.
\<close>

record 'a scaling_state =
  st_T :: "'a matrix"
  st_hasExtraSquareRoot :: bool
  st_numberOfSquareRoots :: nat

text \<open>What the loop leaves behind at its \<^verbatim>\<open>break\<close>.\<close>

record 'a scaling_result =
  out_degree :: int
  out_IminusT :: "'a matrix"
  out_numberOfSquareRoots :: nat

text \<open>
  One pass through the loop body: \<open>Inl\<close> at the \<^verbatim>\<open>break\<close>, \<open>Inr\<close> with the state of
  the next pass otherwise. \<open>msqrt\<close> stands for
  \<^verbatim>\<open>MatrixSquareRootTriangular<MatrixType>(T).compute(sqrtT)\<close>, which is outside this file.
\<close>

definition computeBig_iter ::
  "real_scalar_type \<Rightarrow> ('a matrix \<Rightarrow> 'a matrix) \<Rightarrow> 'a::real_normed_field matrix \<Rightarrow> 'a scaling_state
   \<Rightarrow> 'a scaling_result + 'a scaling_state" where
  "computeBig_iter ty msqrt m_A s =
     (let IminusT = mat_sub (Identity (rows m_A) (cols m_A)) (st_T s);
          normIminusT = colwise_abs_sum_max IminusT;
          next_T = triangularView_Upper (msqrt (st_T s))
      in if normIminusT < maxNormForPade ty then
           (let degree = matrix_power_get_pade_degree ty normIminusT;
                degree2 = matrix_power_get_pade_degree ty (normIminusT / 2)
            in if degree - degree2 \<le> 1 \<or> st_hasExtraSquareRoot s then
                 Inl \<lparr>out_degree = degree, out_IminusT = IminusT, out_numberOfSquareRoots = st_numberOfSquareRoots s\<rparr>
               else
                 Inr \<lparr>st_T = next_T, st_hasExtraSquareRoot = True,
                      st_numberOfSquareRoots = st_numberOfSquareRoots s + 1\<rparr>)
         else
           Inr \<lparr>st_T = next_T, st_hasExtraSquareRoot = st_hasExtraSquareRoot s,
                st_numberOfSquareRoots = st_numberOfSquareRoots s + 1\<rparr>)"

text \<open>The loop has no bound on its passes: not returning is the value \<open>None\<close>.\<close>

partial_function (option) computeBig_loop ::
  "real_scalar_type \<Rightarrow> ('a matrix \<Rightarrow> 'a matrix) \<Rightarrow> 'a::real_normed_field matrix \<Rightarrow> 'a scaling_state
   \<Rightarrow> 'a scaling_result option" where
  "computeBig_loop ty msqrt m_A s =
     (case computeBig_iter ty msqrt m_A s of
        Inl r \<Rightarrow> Some r
      | Inr s' \<Rightarrow> computeBig_loop ty msqrt m_A s')"

text \<open>\<^verbatim>\<open>std::ldexp(p, e)\<close>\<close>

definition ldexp :: "real \<Rightarrow> int \<Rightarrow> real" where
  "ldexp x e = (if 0 \<le> e then x * 2 ^ nat e else x / 2 ^ nat (- e))"

text \<open>
  \<^verbatim>\<open>
  for (; numberOfSquareRoots; --numberOfSquareRoots) {
    compute2x2(res, std::ldexp(p,-numberOfSquareRoots));
    res = res.template triangularView<Upper>() * res;
  }
  \<close>
\<close>

fun unscale_loop ::
  "'a::real_normed_field scalar_ops \<Rightarrow> 'a matrix \<Rightarrow> real \<Rightarrow> nat \<Rightarrow> 'a matrix \<Rightarrow> error + 'a matrix" where
  "unscale_loop F m_A p 0 res = Inr res"
| "unscale_loop F m_A p (Suc k) res =
     (case compute2x2 F m_A res (ldexp p (- int (Suc k))) of
        Inl e \<Rightarrow> Inl e
      | Inr res' \<Rightarrow> unscale_loop F m_A p k (mat_mul (triangularView_Upper res') res'))"

text \<open>
  \<^verbatim>\<open>computeBig\<close> overwrites \<open>res\<close> in \<^verbatim>\<open>computePade\<close> before it reads it.
\<close>

definition computeBig ::
  "'a::real_normed_field scalar_ops \<Rightarrow> real_scalar_type \<Rightarrow> ('a matrix \<Rightarrow> 'a matrix) \<Rightarrow>
   ('a matrix \<Rightarrow> 'a matrix \<Rightarrow> 'a matrix) \<Rightarrow> 'a matrix \<Rightarrow> 'a matrix \<Rightarrow> real \<Rightarrow> (error + 'a matrix) option" where
  "computeBig F ty msqrt solve m_A res p =
     (case computeBig_loop ty msqrt m_A
             \<lparr>st_T = triangularView_Upper m_A, st_hasExtraSquareRoot = False,
              st_numberOfSquareRoots = 0\<rparr> of
        None \<Rightarrow> None
      | Some r \<Rightarrow>
          Some (case unscale_loop F m_A p (out_numberOfSquareRoots r)
                       (computePade solve (out_degree r) (out_IminusT r) p) of
                  Inl e \<Rightarrow> Inl e
                | Inr res' \<Rightarrow> compute2x2 F m_A res' p))"

subsection \<open>The entry point\<close>

text \<open>
  \<^verbatim>\<open>
  switch (m_A.rows()) {
    case 0: break;
    case 1: res(0,0) = std::pow(m_A(0,0), p); break;
    case 2: compute2x2(res, p); break;
    default: computeBig(res, p);
  }
  \<close>
  The constructor asserts that \<open>m_A\<close> is square.
\<close>

definition compute ::
  "'a::real_normed_field scalar_ops \<Rightarrow> real_scalar_type \<Rightarrow> ('a matrix \<Rightarrow> 'a matrix) \<Rightarrow>
   ('a matrix \<Rightarrow> 'a matrix \<Rightarrow> 'a matrix) \<Rightarrow> 'a matrix \<Rightarrow> 'a matrix \<Rightarrow> real \<Rightarrow> (error + 'a matrix) option" where
  "compute F ty msqrt solve m_A res p =
     (case rows m_A of
        0 \<Rightarrow> Some (Inr res)
      | Suc 0 \<Rightarrow> Some (Inr (set_coeff res 0 0 (pow_s F (coeff m_A 0 0) p)))
      | Suc (Suc 0) \<Rightarrow> Some (compute2x2 F m_A res p)
      | Suc (Suc (Suc n)) \<Rightarrow> computeBig F ty msqrt solve m_A res p)"

subsection \<open>Triangular matrices and their square roots\<close>

text \<open>\<open>W\<close> of the scaling loop after \<open>k\<close> passes that took a square root.\<close>

definition square_rooted :: "('a matrix \<Rightarrow> 'a matrix) \<Rightarrow> 'a::real_normed_field matrix \<Rightarrow> nat \<Rightarrow> 'a matrix" where
  "square_rooted msqrt A k =
     ((\<lambda>M. triangularView_Upper (msqrt M)) ^^ k) (triangularView_Upper A)"

text \<open>
  The inputs of the engine: square matrices whose entries below the diagonal are zero.
  The eigenvalues of such a matrix are its diagonal entries. A complex one has its
  eigenvalues away from zero when no diagonal entry is zero; a real one has, in addition,
  real principal square roots when its diagonal entries are positive.
\<close>

definition upper_triangular :: "nat \<Rightarrow> 'a::zero matrix \<Rightarrow> bool" where
  "upper_triangular n M =
     (has_dims M n n \<and> list_all (\<lambda>i. list_all (\<lambda>j. coeff M i j = 0) [0..<i]) [0..<n])"

definition diagonal_all :: "('a \<Rightarrow> bool) \<Rightarrow> nat \<Rightarrow> 'a matrix \<Rightarrow> bool" where
  "diagonal_all ok n M = list_all (\<lambda>i. ok (coeff M i i)) [0..<n]"

definition positive_diagonal :: "nat \<Rightarrow> real matrix \<Rightarrow> bool" where
  "positive_diagonal n M = diagonal_all (\<lambda>x. 0 < x) n M"

definition nonzero_diagonal :: "nat \<Rightarrow> complex matrix \<Rightarrow> bool" where
  "nonzero_diagonal n M = diagonal_all (\<lambda>x. x \<noteq> 0) n M"

text \<open>
  Modelled from the spec: \<^verbatim>\<open>MatrixSquareRootTriangular\<close> is missing from the file; the
  spec calls its result the principal triangular square root of \<open>W\<close>: an upper triangular
  \<open>R\<close> with \<open>R * R = W\<close> whose diagonal holds the principal square roots of the diagonal
  of \<open>W\<close>. The scalar square root is \<^term>\<open>sqrt\<close> for a real matrix and \<^term>\<open>csqrt\<close> for a
  complex one.
\<close>

definition principal_sqrt_of :: "('a \<Rightarrow> 'a) \<Rightarrow> nat \<Rightarrow> 'a::real_normed_field matrix \<Rightarrow> 'a matrix \<Rightarrow> bool" where
  "principal_sqrt_of scalar_sqrt n R M =
     (upper_triangular n R \<and> mat_mul R R = M \<and>
      list_all (\<lambda>i. coeff R i i = scalar_sqrt (coeff M i i)) [0..<n])"

text \<open>
  Modelled from the spec: the principal square root of a 3x3 upper triangular matrix whose
  diagonal has principal square roots, for concrete instances.
\<close>

definition sqrt_triangular3 :: "('a \<Rightarrow> 'a) \<Rightarrow> 'a::real_normed_field matrix \<Rightarrow> 'a matrix" where
  "sqrt_triangular3 scalar_sqrt M =
     (let a = scalar_sqrt (coeff M 0 0); b = scalar_sqrt (coeff M 1 1);
          c = scalar_sqrt (coeff M 2 2);
          x = coeff M 0 1 / (a + b); y = coeff M 1 2 / (b + c);
          z = (coeff M 0 2 - x * y) / (a + c)
      in [[a, x, z], [0, b, y], [0, 0, c]])"

section \<open>Properties\<close>

subsection \<open>The degree selector\<close>

lemma pade_degree_loop_ge: "degree \<le> pade_degree_loop tbl m n degree"
proof (induction tbl m n degree rule: pade_degree_loop.induct)
  case (1 tbl m n d)
  then show ?case
    by (subst pade_degree_loop.simps) auto
qed

lemma pade_degree_loop_le:
  "degree \<le> m + 1 \<Longrightarrow> pade_degree_loop tbl m n degree \<le> m + 1"
proof (induction tbl m n degree rule: pade_degree_loop.induct)
  case (1 tbl m n d)
  then show ?case
    by (subst pade_degree_loop.simps) auto
qed

lemma pade_degree_loop_stop:
  "\<not> degree \<le> m \<or> n \<le> tbl ! nat (degree - 3) \<Longrightarrow> pade_degree_loop tbl m n degree = degree"
  by (subst pade_degree_loop.simps) auto

lemma pade_degree_loop_next:
  "degree \<le> m \<Longrightarrow> \<not> n \<le> tbl ! nat (degree - 3) \<Longrightarrow>
   pade_degree_loop tbl m n degree = pade_degree_loop tbl m n (degree + 1)"
  by (subst pade_degree_loop.simps) auto

lemma pade_degree_loop_hit:
  "pade_degree_loop tbl m n degree \<le> m \<Longrightarrow>
   n \<le> tbl ! nat (pade_degree_loop tbl m n degree - 3)"
proof (induction tbl m n degree rule: pade_degree_loop.induct)
  case (1 tbl m n d)
  show ?case
  proof (cases "d \<le> m \<and> \<not> n \<le> tbl ! nat (d - 3)")
    case True
    then have eq: "pade_degree_loop tbl m n d = pade_degree_loop tbl m n (d + 1)"
      by (simp add: pade_degree_loop_next)
    with 1 True show ?thesis by simp
  next
    case False
    then have eq: "pade_degree_loop tbl m n d = d"
      by (intro pade_degree_loop_stop) auto
    with False 1(2) show ?thesis by auto
  qed
qed

lemma pade_degree_loop_skipped:
  "degree \<le> d' \<Longrightarrow> d' < pade_degree_loop tbl m n degree \<Longrightarrow>
   d' \<le> m \<and> \<not> n \<le> tbl ! nat (d' - 3)"
proof (induction tbl m n degree rule: pade_degree_loop.induct)
  case (1 tbl m n d)
  show ?case
  proof (cases "d \<le> m \<and> \<not> n \<le> tbl ! nat (d - 3)")
    case True
    then have eq: "pade_degree_loop tbl m n d = pade_degree_loop tbl m n (d + 1)"
      by (subst pade_degree_loop.simps) simp
    show ?thesis
    proof (cases "d' = d")
      case True
      with \<open>d \<le> m \<and> \<not> n \<le> tbl ! nat (d - 3)\<close> show ?thesis by simp
    next
      case False
      with 1(2) have "d + 1 \<le> d'" by simp
      with 1(1) True 1(3) eq show ?thesis by simp
    qed
  next
    case False
    then have "pade_degree_loop tbl m n d = d"
      by (subst pade_degree_loop.simps) auto
    with 1(2,3) show ?thesis by simp
  qed
qed

lemma pade_degree_loop_mono:
  "n1 \<le> n2 \<Longrightarrow> pade_degree_loop tbl m n1 degree \<le> pade_degree_loop tbl m n2 degree"
proof (induction tbl m n2 degree rule: pade_degree_loop.induct)
  case (1 tbl m n2 d)
  show ?case
  proof (cases "d \<le> m")
    case False
    then show ?thesis by (subst (1 2) pade_degree_loop.simps) simp
  next
    case True
    note dm = this
    show ?thesis
    proof (cases "n2 \<le> tbl ! nat (d - 3)")
      case True
      with dm 1(2) show ?thesis by (subst (1 2) pade_degree_loop.simps) simp
    next
      case False
      have r2: "pade_degree_loop tbl m n2 d = pade_degree_loop tbl m n2 (d + 1)"
        using dm False by (subst pade_degree_loop.simps) simp
      show ?thesis
      proof (cases "n1 \<le> tbl ! nat (d - 3)")
        case True
        then have "pade_degree_loop tbl m n1 d = d"
          using dm by (subst pade_degree_loop.simps) simp
        with pade_degree_loop_ge [of d tbl m n2] show ?thesis by simp
      next
        case n1: False
        have "pade_degree_loop tbl m n1 d = pade_degree_loop tbl m n1 (d + 1)"
          using dm n1 by (subst pade_degree_loop.simps) simp
        with r2 1(1) [OF dm False 1(2)] show ?thesis by simp
      qed
    qed
  qed
qed


lemma maxPadeDegree_ge: "4 \<le> maxPadeDegree ty"
  by (cases ty) (simp_all add: maxPadeDegree_long_double_def)

lemma padeTable_length: "length (padeTable ty) = nat (maxPadeDegree ty - 2)"
  by (cases ty)
     (simp_all add: maxNormForPade_float_def maxNormForPade_double_def
        maxNormForPade_long_double_def maxPadeDegree_long_double_def)

text \<open>
  Claim C3, as the code has it: the selector returns the smallest degree \<open>d\<close> from 3 up
  to the maximum of the precision (4 for float, 7 for double, 7, 8 or 10 for long double)
  whose tabulated threshold is not exceeded by the norm; when the norm exceeds every
  threshold it returns the maximum plus one. The value lies between 3 and the maximum
  plus one, and the table has one threshold for each degree of the range.
\<close>

theorem matrix_power_get_pade_degree_smallest:
  "3 \<le> matrix_power_get_pade_degree ty n \<and>
   matrix_power_get_pade_degree ty n \<le> maxPadeDegree ty + 1 \<and>
   (matrix_power_get_pade_degree ty n \<le> maxPadeDegree ty \<longrightarrow>
      n \<le> padeThreshold ty (matrix_power_get_pade_degree ty n)) \<and>
   (\<forall>d. 3 \<le> d \<and> d < matrix_power_get_pade_degree ty n \<longrightarrow>
      d \<le> maxPadeDegree ty \<and> padeThreshold ty d < n) \<and>
   ((\<forall>d. 3 \<le> d \<and> d \<le> maxPadeDegree ty \<longrightarrow> padeThreshold ty d < n) \<longrightarrow>
      matrix_power_get_pade_degree ty n = maxPadeDegree ty + 1) \<and>
   length (padeTable ty) = nat (maxPadeDegree ty - 2) \<and>
   maxPadeDegree Float = 4 \<and> maxPadeDegree Double = 7 \<and>
   maxPadeDegree (LongDouble m) \<in> {7, 8, 10}"
proof -
  let ?r = "matrix_power_get_pade_degree ty n"
  have mx: "maxPadeDegree Float = 4 \<and> maxPadeDegree Double = 7 \<and>
            maxPadeDegree (LongDouble m) \<in> {7, 8, 10}"
    by (simp add: maxPadeDegree_long_double_def)
  have lo: "3 \<le> ?r"
    unfolding matrix_power_get_pade_degree_def by (rule pade_degree_loop_ge)
  have hi: "?r \<le> maxPadeDegree ty + 1"
    unfolding matrix_power_get_pade_degree_def
    using maxPadeDegree_ge [of ty] by (intro pade_degree_loop_le) simp
  have hit: "n \<le> padeThreshold ty ?r" if "?r \<le> maxPadeDegree ty"
    using that unfolding matrix_power_get_pade_degree_def padeThreshold_def
    by (rule pade_degree_loop_hit)
  have skip: "d \<le> maxPadeDegree ty \<and> padeThreshold ty d < n" if "3 \<le> d \<and> d < ?r" for d
    using that pade_degree_loop_skipped [of 3 d "padeTable ty" "maxPadeDegree ty" n]
    unfolding matrix_power_get_pade_degree_def padeThreshold_def by auto
  have top: "?r = maxPadeDegree ty + 1"
    if all: "\<forall>d. 3 \<le> d \<and> d \<le> maxPadeDegree ty \<longrightarrow> padeThreshold ty d < n"
  proof (rule ccontr)
    assume "?r \<noteq> maxPadeDegree ty + 1"
    with hi have le: "?r \<le> maxPadeDegree ty" by simp
    from all lo le have "padeThreshold ty ?r < n" by blast
    with hit [OF le] show False by simp
  qed
  from lo hi hit skip top padeTable_length [of ty] mx show ?thesis by blast
qed

theorem matrix_power_get_pade_degree_smallest_witness:
  "matrix_power_get_pade_degree Double 0.1 = 5 \<and>
   (0.1 :: real) \<le> padeThreshold Double 5 \<and> padeThreshold Double 4 < (0.1 :: real) \<and>
   padeThreshold Double 3 < (0.1 :: real) \<and>
   matrix_power_get_pade_degree Double 0.3 = maxPadeDegree Double + 1"
proof -
  have v: "matrix_power_get_pade_degree Double 0.1 = 5"
    by (simp add: matrix_power_get_pade_degree_def maxNormForPade_double_def
        pade_degree_loop.simps)
  have all: "\<forall>d. 3 \<le> d \<and> d \<le> maxPadeDegree Double \<longrightarrow> padeThreshold Double d < 0.3"
  proof (intro allI impI)
    fix d :: int
    assume "3 \<le> d \<and> d \<le> maxPadeDegree Double"
    then have "d = 3 \<or> d = 4 \<or> d = 5 \<or> d = 6 \<or> d = 7" by auto
    then show "padeThreshold Double d < 0.3"
      by (auto simp: padeThreshold_def maxNormForPade_double_def)
  qed
  from matrix_power_get_pade_degree_smallest [of Double "0.1"] v all
    matrix_power_get_pade_degree_smallest [of Double "0.3"]
  show ?thesis by simp
qed

theorem matrix_power_get_pade_degree_above_maximum:
  "matrix_power_get_pade_degree Double 0.3 = 8 \<and> maxPadeDegree Double = 7"
  by (simp add: matrix_power_get_pade_degree_def maxNormForPade_double_def
      pade_degree_loop.simps)

text \<open>
  Claim C8: the degree selector is monotonic within one precision class: a smaller norm
  never gets a larger degree.
\<close>

theorem matrix_power_get_pade_degree_mono:
  "norm1 < norm2 \<Longrightarrow>
   matrix_power_get_pade_degree ty norm1 \<le> matrix_power_get_pade_degree ty norm2"
  unfolding matrix_power_get_pade_degree_def by (rule pade_degree_loop_mono) simp

theorem matrix_power_get_pade_degree_mono_witness:
  "(0.01 :: real) < 0.2 \<and>
   matrix_power_get_pade_degree Double 0.01 \<le> matrix_power_get_pade_degree Double 0.2"
proof -
  have h: "(0.01 :: real) < 0.2" by simp
  show ?thesis using h matrix_power_get_pade_degree_mono [OF h, of Double] by simp
qed

subsection \<open>Matrix coefficients and the 2x2 block solver\<close>

lemma coeff_set_coeff:
  "coeff (set_coeff M i j v) r c =
     (if r = i \<and> c = j \<and> i < length M \<and> j < length (M ! i) then v else coeff M r c)"
proof (cases "i < length M")
  case False
  then show ?thesis by (simp add: coeff_def set_coeff_def list_update_beyond)
next
  case True
  then show ?thesis
    by (cases "r = i"; cases "c = j"; cases "j < length (M ! i)")
       (simp_all add: coeff_def set_coeff_def list_update_beyond)
qed

lemma has_dims_set_coeff: "has_dims (set_coeff M i j v) r c = has_dims M r c"
proof (cases "i < length M")
  case False
  then show ?thesis by (simp add: set_coeff_def list_update_beyond)
next
  case True
  have "list_all (\<lambda>row. length row = c) (M[i := (M ! i)[j := v]])
        = list_all (\<lambda>row. length row = c) M"
    unfolding list_all_length using True
    by (auto simp: nth_list_update)
  then show ?thesis by (simp add: has_dims_def set_coeff_def)
qed

lemma has_dims_row: "has_dims M r c \<Longrightarrow> i < r \<Longrightarrow> length (M ! i) = c"
  by (simp add: has_dims_def list_all_length)

lemma coeff_set_coeff_dims:
  "has_dims M n m \<Longrightarrow> i < n \<Longrightarrow> j < m \<Longrightarrow>
   coeff (set_coeff M i j v) r c = (if r = i \<and> c = j then v else coeff M r c)"
  using has_dims_row [of M n m i] by (auto simp: coeff_set_coeff has_dims_def)

lemma compute2x2_case_EqualDiag: "(compute2x2_case a b = EqualDiag) = (a = b)"
  by (simp add: compute2x2_case_def)

lemma compute2x2_case_WellSeparated:
  "(compute2x2_case a b = WellSeparated) = (2 * abs_s a < abs_s b \<or> 2 * abs_s b < abs_s a)"
  by (auto simp: compute2x2_case_def abs_s_def)

lemma compute2x2_superdiag_total: "\<exists>v. compute2x2_superdiag F A L p i res = Inr v"
  by (auto simp: compute2x2_superdiag_def sdiv_def Let_def compute2x2_case_def
           split: pair_case.splits if_splits)

lemma compute2x2_superdiag_cong:
  "coeff res i i = coeff res' i i \<Longrightarrow> coeff res (i - 1) (i - 1) = coeff res' (i - 1) (i - 1) \<Longrightarrow>
   compute2x2_superdiag F A L p i res = compute2x2_superdiag F A L p i res'"
  by (simp add: compute2x2_superdiag_def split: pair_case.splits)


lemma compute2x2_step_eq:
  "\<exists>v. compute2x2_superdiag F A L p i (set_coeff res i i (pow_s F (coeff A i i) p)) = Inr v \<and>
       compute2x2_step F A L p i res =
         Inr (set_coeff (set_coeff res i i (pow_s F (coeff A i i) p)) (i - 1) i v)"
proof -
  obtain v where "compute2x2_superdiag F A L p i (set_coeff res i i (pow_s F (coeff A i i) p)) = Inr v"
    using compute2x2_superdiag_total by blast
  then show ?thesis by (simp add: compute2x2_step_def)
qed

lemma compute2x2_loop_total: "\<exists>out. compute2x2_loop F A L p js res = Inr out"
proof (induction js arbitrary: res)
  case Nil
  show ?case by simp
next
  case (Cons j js)
  obtain res' where "compute2x2_step F A L p j res = Inr res'"
    using compute2x2_step_eq [of F A L p j res] by blast
  with Cons [of res'] show ?case by simp
qed

lemma compute2x2_loop_post:
  "has_dims res n n \<Longrightarrow> 1 \<le> k \<Longrightarrow>
   \<exists>out. compute2x2_loop F A L p [k..<n] res = Inr out \<and> has_dims out n n \<and>
     (\<forall>j. k \<le> j \<and> j < n \<longrightarrow>
        coeff out j j = pow_s F (coeff A j j) p \<and>
        compute2x2_superdiag F A L p j out = Inr (coeff out (j - 1) j)) \<and>
     (\<forall>r c. \<not> (k \<le> c \<and> c < n \<and> (r = c \<or> Suc r = c)) \<longrightarrow> coeff out r c = coeff res r c)"
proof (induction "n - k" arbitrary: k res)
  case 0
  then have "[k..<n] = []" and "n \<le> k" by simp_all
  with 0 show ?case by auto
next
  case (Suc m)
  then have kn: "k < n" by simp
  then have upt: "[k..<n] = k # [Suc k..<n]" by (simp add: upt_conv_Cons)
  define res1 where "res1 = set_coeff res k k (pow_s F (coeff A k k) p)"
  obtain v where v: "compute2x2_superdiag F A L p k res1 = Inr v"
    and step: "compute2x2_step F A L p k res = Inr (set_coeff res1 (k - 1) k v)"
    using compute2x2_step_eq [of F A L p k res] unfolding res1_def by blast
  define res2 where "res2 = set_coeff res1 (k - 1) k v"
  have d1: "has_dims res1 n n" using Suc.prems(1) by (simp add: res1_def has_dims_set_coeff)
  have d2: "has_dims res2 n n" using d1 by (simp add: res2_def has_dims_set_coeff)
  have c1: "coeff res1 r c = (if r = k \<and> c = k then pow_s F (coeff A k k) p else coeff res r c)" for r c
    unfolding res1_def using coeff_set_coeff_dims [OF Suc.prems(1) kn kn] by simp
  have k1: "k - 1 < n" using kn by simp
  have c2: "coeff res2 r c = (if r = k - 1 \<and> c = k then v else coeff res1 r c)" for r c
    unfolding res2_def using coeff_set_coeff_dims [OF d1 k1 kn] by simp
  have "m = n - Suc k" using Suc.hyps(2) by simp
  from Suc.hyps(1) [OF this d2] obtain out where
    out: "compute2x2_loop F A L p [Suc k..<n] res2 = Inr out" and dout: "has_dims out n n"
    and later: "\<And>j. Suc k \<le> j \<and> j < n \<Longrightarrow>
        coeff out j j = pow_s F (coeff A j j) p \<and>
        compute2x2_superdiag F A L p j out = Inr (coeff out (j - 1) j)"
    and same: "\<And>r c. \<not> (Suc k \<le> c \<and> c < n \<and> (r = c \<or> Suc r = c)) \<Longrightarrow> coeff out r c = coeff res2 r c"
    by auto
  have loop: "compute2x2_loop F A L p [k..<n] res = Inr out"
    using upt step out by (simp add: res2_def)
  have ne: "k - 1 \<noteq> k" "k \<noteq> k - 1" "\<not> Suc k \<le> k - 1"
    using Suc.prems(2) by simp_all
  have kk: "coeff out k k = pow_s F (coeff A k k) p"
    using same [of k k] ne by (simp add: c2 c1)
  have km: "coeff out (k - 1) (k - 1) = coeff res1 (k - 1) (k - 1)"
    using same [of "k - 1" "k - 1"] ne by (simp add: c2)
  have kv: "coeff out (k - 1) k = v"
    using same [of k "k - 1"] by (simp add: c2)
  have e1: "coeff out k k = coeff res1 k k" by (simp add: kk c1)
  have "compute2x2_superdiag F A L p k out = compute2x2_superdiag F A L p k res1"
    using e1 km by (rule compute2x2_superdiag_cong)
  then have sk: "compute2x2_superdiag F A L p k out = Inr (coeff out (k - 1) k)"
    using v kv by simp
  have diag: "coeff out j j = pow_s F (coeff A j j) p \<and>
        compute2x2_superdiag F A L p j out = Inr (coeff out (j - 1) j)" if "k \<le> j \<and> j < n" for j
  proof (cases "j = k")
    case True
    with kk sk show ?thesis by simp
  next
    case False
    with that have "Suc k \<le> j \<and> j < n" by simp
    then show ?thesis by (rule later)
  qed
  have unch: "coeff out r c = coeff res r c" if "\<not> (k \<le> c \<and> c < n \<and> (r = c \<or> Suc r = c))" for r c
  proof -
    from that have "\<not> (Suc k \<le> c \<and> c < n \<and> (r = c \<or> Suc r = c))" by auto
    then have "coeff out r c = coeff res2 r c" by (rule same)
    also have "\<dots> = coeff res r c"
      using that kn Suc.prems(2) by (auto simp: c2 c1)
    finally show ?thesis .
  qed
  from loop dout diag unch show ?case by blast
qed

lemma cols_has_dims: "has_dims M n n \<Longrightarrow> cols M = n"
  by (cases M) (auto simp: cols_def has_dims_def)

lemma rows_has_dims: "has_dims M n m \<Longrightarrow> rows M = n"
  by (simp add: rows_def has_dims_def)

lemma compute2x2_total: "\<exists>out. compute2x2 F A res p = Inr out"
  by (simp add: compute2x2_def Let_def compute2x2_loop_total)

lemma compute2x2_post:
  assumes "has_dims res (cols A) (cols A)"
  shows "\<exists>out. compute2x2 F A res p = Inr out \<and> has_dims out (cols A) (cols A) \<and>
     (\<forall>j. j < cols A \<longrightarrow> coeff out j j = pow_s F (coeff A j j) p) \<and>
     (\<forall>j. 1 \<le> j \<and> j < cols A \<longrightarrow>
        compute2x2_superdiag F A (map (log_s F) (diagonal A)) p j out = Inr (coeff out (j - 1) j)) \<and>
     (\<forall>r c. \<not> (c < cols A \<and> (r = c \<or> Suc r = c)) \<longrightarrow> coeff out r c = coeff res r c)"
proof -
  define n where "n = cols A"
  define res0 where "res0 = set_coeff res 0 0 (pow_s F (coeff A 0 0) p)"
  define L where "L = map (log_s F) (diagonal A)"
  have d: "has_dims res n n" using assms by (simp add: n_def)
  have d0: "has_dims res0 n n" using d by (simp add: res0_def has_dims_set_coeff)
  have c0: "coeff res0 r c = (if r = 0 \<and> c = 0 then pow_s F (coeff A 0 0) p else coeff res r c)"
    if "0 < n" for r c
    unfolding res0_def using coeff_set_coeff_dims [OF d that that] by simp
  have c0': "coeff res0 r c = coeff res r c" if "\<not> (r = 0 \<and> c = 0)" for r c
    unfolding res0_def using that by (auto simp: coeff_set_coeff)
  from compute2x2_loop_post [OF d0, of 1 F A L p] obtain out where
    out: "compute2x2_loop F A L p [1..<n] res0 = Inr out" and dout: "has_dims out n n"
    and later: "\<And>j. 1 \<le> j \<and> j < n \<Longrightarrow>
        coeff out j j = pow_s F (coeff A j j) p \<and>
        compute2x2_superdiag F A L p j out = Inr (coeff out (j - 1) j)"
    and same: "\<And>r c. \<not> (1 \<le> c \<and> c < n \<and> (r = c \<or> Suc r = c)) \<Longrightarrow> coeff out r c = coeff res0 r c"
    by auto
  have eq: "compute2x2 F A res p = Inr out"
    using out by (simp add: compute2x2_def Let_def n_def res0_def L_def)
  have diag: "coeff out j j = pow_s F (coeff A j j) p" if "j < n" for j
  proof (cases "j = 0")
    case True
    with that same [of 0 0] c0 [of 0 0] show ?thesis by simp
  next
    case False
    with that later [of j] show ?thesis by simp
  qed
  have unch: "coeff out r c = coeff res r c" if "\<not> (c < n \<and> (r = c \<or> Suc r = c))" for r c
  proof -
    from that have "\<not> (1 \<le> c \<and> c < n \<and> (r = c \<or> Suc r = c))" by auto
    then have "coeff out r c = coeff res0 r c" by (rule same)
    also have "\<dots> = coeff res r c"
    proof (cases "r = 0 \<and> c = 0")
      case True
      with that have "\<not> 0 < n" by simp
      then have "n = 0" by simp
      with d have "res = []" by (simp add: has_dims_def)
      then show ?thesis by (simp add: res0_def set_coeff_def)
    next
      case False
      then show ?thesis by (rule c0')
    qed
    finally show ?thesis .
  qed
  from eq dout diag later unch show ?thesis
    unfolding n_def L_def by blast
qed


lemma compute2x2_case_CloseUnequal:
  "(compute2x2_case a b = CloseUnequal) =
     (a \<noteq> b \<and> \<not> 2 * abs_s a < abs_s b \<and> \<not> 2 * abs_s b < abs_s a)"
  by (auto simp: compute2x2_case_def)

lemma diagonal_nth:
  "has_dims A n n \<Longrightarrow> i < n \<Longrightarrow> map f (diagonal A) ! i = f (coeff A i i)"
  by (simp add: diagonal_def cols_has_dims rows_has_dims)

lemma compute2x2_superdiag_WellSeparated:
  assumes "2 * abs_s (coeff A (i - 1) (i - 1)) < abs_s (coeff A i i) \<or>
           2 * abs_s (coeff A i i) < abs_s (coeff A (i - 1) (i - 1))"
  shows "coeff A i i - coeff A (i - 1) (i - 1) \<noteq> 0 \<and>
         compute2x2_superdiag F A L p i res =
           Inr (coeff A (i - 1) i * (coeff res i i - coeff res (i - 1) (i - 1)) /
                (coeff A i i - coeff A (i - 1) (i - 1)))"
proof -
  from assms have c: "compute2x2_case (coeff A (i - 1) (i - 1)) (coeff A i i) = WellSeparated"
    by (simp add: compute2x2_case_WellSeparated)
  then have "coeff A (i - 1) (i - 1) \<noteq> coeff A i i"
    by (auto simp: compute2x2_case_def split: if_splits)
  then have ne: "coeff A i i - coeff A (i - 1) (i - 1) \<noteq> 0" by simp
  show ?thesis
    using ne by (simp add: compute2x2_superdiag_def c sdiv_def del: One_nat_def)
qed

lemma compute2x2_superdiag_CloseUnequal:
  assumes "coeff A (i - 1) (i - 1) \<noteq> coeff A i i"
    and "\<not> 2 * abs_s (coeff A (i - 1) (i - 1)) < abs_s (coeff A i i)"
    and "\<not> 2 * abs_s (coeff A i i) < abs_s (coeff A (i - 1) (i - 1))"
  shows "compute2x2_superdiag F A L p i res =
           Inr (coeff A (i - 1) i * of_real 2 *
                exp_s F (of_real (0.5 * p) * (L ! i + L ! (i - 1))) *
                sinh_s F (of_real p *
                  matrix_power_unwinder F (coeff A i i) (coeff A (i - 1) (i - 1))
                    \<lceil>(imag_s F (L ! i - L ! (i - 1)) - pi) / (2 * pi)\<rceil>) /
                (coeff A i i - coeff A (i - 1) (i - 1)))"
proof -
  from assms have c: "compute2x2_case (coeff A (i - 1) (i - 1)) (coeff A i i) = CloseUnequal"
    by (simp add: compute2x2_case_CloseUnequal)
  from assms(1) have ne: "coeff A i i - coeff A (i - 1) (i - 1) \<noteq> 0" by simp
  show ?thesis
    using ne by (simp add: compute2x2_superdiag_def c sdiv_def Let_def del: One_nat_def)
qed

lemma compute2x2_superdiag_at:
  assumes "has_dims res (cols A) (cols A)" and "1 \<le> i" and "i < cols A"
  shows "\<exists>out. compute2x2 F A res p = Inr out \<and>
     coeff out i i = pow_s F (coeff A i i) p \<and>
     coeff out (i - 1) (i - 1) = pow_s F (coeff A (i - 1) (i - 1)) p \<and>
     compute2x2_superdiag F A (map (log_s F) (diagonal A)) p i out = Inr (coeff out (i - 1) i)"
proof -
  from compute2x2_post [OF assms(1), of F p] obtain out where
    eq: "compute2x2 F A res p = Inr out"
    and diag: "\<And>j. j < cols A \<Longrightarrow> coeff out j j = pow_s F (coeff A j j) p"
    and sup: "\<And>j. 1 \<le> j \<and> j < cols A \<Longrightarrow>
        compute2x2_superdiag F A (map (log_s F) (diagonal A)) p j out = Inr (coeff out (j - 1) j)"
    by blast
  have "i - 1 < cols A" using assms(3) by simp
  with eq diag [of i] diag [of "i - 1"] sup [of i] assms(2,3) show ?thesis by blast
qed

text \<open>
  The value of the hyperbolic-sine branch in exact arithmetic, with \<^verbatim>\<open>atanh2\<close> as the spec
  gives it: the unwinding term cancels the branch cut of the logarithm of a quotient, and
  what is left is the difference of the two powers.
\<close>

lemma two_exp_sinh:
  fixes x y :: "'a::{real_normed_field,banach}"
  shows "2 * exp (x + y) * sinh (x - y) = exp (2 * x) - exp (2 * y)"
proof -
  have a: "exp (x + y) * exp (x - y) = exp (2 * x)"
    by (simp add: exp_add [symmetric])
  have b: "exp (x + y) * exp (- (x - y)) = exp (2 * y)"
    by (simp add: exp_add [symmetric])
  have half: "2 * e * ((u - v) / 2) = e * u - e * v" for e u v :: 'a
    by (simp add: right_diff_distrib)
  have "2 * exp (x + y) * sinh (x - y) =
        2 * exp (x + y) * ((exp (x - y) - exp (- (x - y))) / 2)"
    by (simp only: sinh_field_def)
  also have "\<dots> = exp (x + y) * exp (x - y) - exp (x + y) * exp (- (x - y))"
    by (rule half)
  finally show ?thesis by (simp only: a b)
qed

lemma doubled_ratio:
  fixes a b :: "'a::field_char_0"
  assumes "a \<noteq> 0"
  shows "(b + a + (b - a)) / (b + a - (b - a)) = b / a"
proof -
  have "(b + a + (b - a)) / (b + a - (b - a)) = (2 * b) / (2 * a)" by simp
  also have "\<dots> = b / a" by simp
  finally show ?thesis .
qed

lemma sinh_form_real:
  fixes a b p :: real
  assumes a: "0 < a" and b: "0 < b"
  shows "2 * exp (0.5 * p * (ln b + ln a)) * sinh (p * atanh2_real (b - a) (b + a)) =
         b powr p - a powr p"
proof -
  have "atanh2_real (b - a) (b + a) = 0.5 * ln (b / a)"
    using a by (simp only: atanh2_real_def doubled_ratio [of a b])
  also have "\<dots> = 0.5 * (ln b - ln a)" using a b by (simp add: ln_div)
  finally have eq: "atanh2_real (b - a) (b + a) = 0.5 * (ln b - ln a)" .
  have "p * atanh2_real (b - a) (b + a) = p * (0.5 * (ln b - ln a))" by (simp only: eq)
  also have "\<dots> = p * ln b / 2 - p * ln a / 2" by (simp add: field_simps)
  finally have w: "p * atanh2_real (b - a) (b + a) = p * ln b / 2 - p * ln a / 2" .
  have e: "0.5 * p * (ln b + ln a) = p * ln b / 2 + p * ln a / 2"
    by (simp add: algebra_simps)
  have "2 * exp (0.5 * p * (ln b + ln a)) * sinh (p * atanh2_real (b - a) (b + a)) =
        exp (2 * (p * ln b / 2)) - exp (2 * (p * ln a / 2))"
    unfolding w e by (rule two_exp_sinh)
  also have "\<dots> = b powr p - a powr p" using a b by (simp add: powr_def)
  finally show ?thesis .
qed

lemma log_complex_divide:
  assumes a: "a \<noteq> 0" and b: "b \<noteq> 0"
  shows "log_complex (b / a) =
         log_complex b - log_complex a -
         Complex 0 (2 * pi * of_int \<lceil>(Im (log_complex b - log_complex a) - pi) / (2 * pi)\<rceil>)"
proof -
  define d where "d = Arg b - Arg a"
  define u where "u = \<lceil>(d - pi) / (2 * pi)\<rceil>"
  have Imd: "Im (log_complex b - log_complex a) = d" by (simp add: log_complex_def d_def)
  have up: "(d - pi) / (2 * pi) \<le> of_int u" unfolding u_def by (rule le_of_int_ceiling)
  have lo: "of_int u - 1 < (d - pi) / (2 * pi)" unfolding u_def by linarith
  have pos: "0 < 2 * pi" by simp
  from up have "d - pi \<le> of_int u * (2 * pi)" by (simp add: pos_divide_le_eq)
  then have hi': "d - 2 * pi * of_int u \<le> pi" by (simp add: algebra_simps)
  from lo have "(of_int u - 1) * (2 * pi) < d - pi" by (simp add: pos_less_divide_eq)
  then have lo': "- pi < d - 2 * pi * of_int u" by (simp add: algebra_simps)
  have "sgn (b / a) = sgn b / sgn a" by (simp add: sgn_divide)
  also have "\<dots> = cis (Arg b) / cis (Arg a)" using a b by (simp add: cis_Arg)
  also have "\<dots> = cis d" by (simp add: cis_divide d_def)
  also have "\<dots> = cis (d - 2 * pi * of_int u)"
  proof -
    have "cis (d - 2 * pi * of_int u) = cis d / cis (2 * pi * of_int u)"
      by (rule cis_divide [symmetric])
    moreover have "cis (2 * pi * of_int u) = 1"
    proof -
      have c: "cos (2 * pi * of_int u) = 1" by (rule cos_int_2pin)
      have s: "sin (2 * pi * of_int u) = 0" by (rule sin_int_2pin)
      show ?thesis by (simp only: complex_eq_iff cis.simps one_complex.simps c s)
    qed
    ultimately show ?thesis by simp
  qed
  finally have "Arg (b / a) = d - 2 * pi * of_int u"
    using lo' hi' by (intro cis_Arg_unique) simp_all
  moreover have "ln (cmod (b / a)) = ln (cmod b) - ln (cmod a)"
    using a b by (simp add: norm_divide ln_div)
  ultimately show ?thesis
    unfolding Imd u_def [symmetric]
    by (simp add: log_complex_def complex_eq_iff d_def)
qed

lemma sinh_form_complex:
  fixes a b :: complex and p :: real
  assumes a: "a \<noteq> 0" and b: "b \<noteq> 0"
  shows "2 * exp (of_real (0.5 * p) * (log_complex b + log_complex a)) *
         sinh (of_real p * (atanh2_complex (b - a) (b + a) +
                 Complex 0 (pi * of_int \<lceil>(Im (log_complex b - log_complex a) - pi) / (2 * pi)\<rceil>))) =
         exp (of_real p * log_complex b) - exp (of_real p * log_complex a)"
proof -
  define u where "u = \<lceil>(Im (log_complex b - log_complex a) - pi) / (2 * pi)\<rceil>"
  have "atanh2_complex (b - a) (b + a) = 0.5 * log_complex (b / a)"
    by (simp only: atanh2_complex_def doubled_ratio [OF a])
  also have "\<dots> = 0.5 * (log_complex b - log_complex a - Complex 0 (2 * pi * of_int u))"
    unfolding u_def by (simp only: log_complex_divide [OF a b])
  finally have "atanh2_complex (b - a) (b + a) + Complex 0 (pi * of_int u) =
        0.5 * (log_complex b - log_complex a)"
    by (simp add: complex_eq_iff)
  then have "of_real p * (atanh2_complex (b - a) (b + a) + Complex 0 (pi * of_int u)) =
        of_real p * (0.5 * (log_complex b - log_complex a))" by (simp only:)
  also have "\<dots> = of_real p * log_complex b / 2 - of_real p * log_complex a / 2"
    by (simp add: field_simps)
  finally have w: "of_real p * (atanh2_complex (b - a) (b + a) + Complex 0 (pi * of_int u)) =
        of_real p * log_complex b / 2 - of_real p * log_complex a / 2" .
  have e: "of_real (0.5 * p) * (log_complex b + log_complex a) =
        of_real p * log_complex b / 2 + of_real p * log_complex a / 2"
    by (simp add: algebra_simps)
  have "2 * exp (of_real (0.5 * p) * (log_complex b + log_complex a)) *
        sinh (of_real p * (atanh2_complex (b - a) (b + a) + Complex 0 (pi * of_int u))) =
        exp (2 * (of_real p * log_complex b / 2)) - exp (2 * (of_real p * log_complex a / 2))"
    unfolding w e by (rule two_exp_sinh)
  then show ?thesis unfolding u_def by simp
qed

lemma at_least_double_cases:
  fixes a b :: "'a::real_normed_field"
  assumes "2 * abs_s a \<le> abs_s b \<or> 2 * abs_s b \<le> abs_s a" and "a \<noteq> b"
  shows "(2 * abs_s a < abs_s b \<or> 2 * abs_s b < abs_s a) \<or>
         (a \<noteq> 0 \<and> b \<noteq> 0 \<and> \<not> 2 * abs_s a < abs_s b \<and> \<not> 2 * abs_s b < abs_s a)"
proof (cases "2 * abs_s a < abs_s b \<or> 2 * abs_s b < abs_s a")
  case True
  then show ?thesis by simp
next
  case False
  with assms(1) have eq: "2 * abs_s a = abs_s b \<or> 2 * abs_s b = abs_s a" by auto
  have "a \<noteq> 0 \<and> b \<noteq> 0"
  proof (rule ccontr)
    assume "\<not> (a \<noteq> 0 \<and> b \<noteq> 0)"
    then have "a = 0 \<or> b = 0" by simp
    with eq have "a = 0 \<and> b = 0" by (auto simp: abs_s_def)
    with assms(2) show False by simp
  qed
  with False show ?thesis by simp
qed

lemma compute2x2_divided_difference_real:
  fixes A :: "real matrix"
  assumes dA: "has_dims A n n" and dres: "has_dims res n n" and i1: "1 \<le> i" and i2: "i < n"
    and pa: "0 < coeff A (i - 1) (i - 1)" and pb: "0 < coeff A i i"
    and ne: "coeff A (i - 1) (i - 1) \<noteq> coeff A i i"
  shows "\<exists>out. compute2x2 (real_scalar (exact_real_libm atanh2_real)) A res p = Inr out \<and>
       coeff out (i - 1) i =
         coeff A (i - 1) i * (coeff out i i - coeff out (i - 1) (i - 1)) /
         (coeff A i i - coeff A (i - 1) (i - 1))"
proof -
  let ?F = "real_scalar (exact_real_libm atanh2_real)"
  let ?L = "map (log_s ?F) (diagonal A)"
  let ?a = "coeff A (i - 1) (i - 1)" and ?b = "coeff A i i"
  from dA have n: "cols A = n" by (rule cols_has_dims)
  from dres i1 i2 n obtain out where eq: "compute2x2 ?F A res p = Inr out"
    and di: "coeff out i i = pow_s ?F ?b p"
    and dp: "coeff out (i - 1) (i - 1) = pow_s ?F ?a p"
    and sup: "compute2x2_superdiag ?F A ?L p i out = Inr (coeff out (i - 1) i)"
    using compute2x2_superdiag_at [of res A i ?F p] by auto
  have li: "?L ! i = ln ?b"
    using diagonal_nth [OF dA i2, of "log_s ?F"] by (simp add: real_scalar_def exact_real_libm_def)
  from i2 have i3: "i - 1 < n" by simp
  have lp: "?L ! (i - 1) = ln ?a"
    using diagonal_nth [OF dA i3, of "log_s ?F"] by (simp add: real_scalar_def exact_real_libm_def)
  have pw: "pow_s ?F ?b p = ?b powr p" "pow_s ?F ?a p = ?a powr p"
    by (simp_all add: real_scalar_def exact_real_libm_def)
  have "coeff out (i - 1) i = coeff A (i - 1) i * (?b powr p - ?a powr p) / (?b - ?a)"
  proof (cases "2 * abs_s ?a < abs_s ?b \<or> 2 * abs_s ?b < abs_s ?a")
    case True
    from compute2x2_superdiag_WellSeparated [OF True, of ?F ?L p out] sup
    show ?thesis by (simp add: di dp pw del: One_nat_def)
  next
    case False
    then have c: "\<not> 2 * abs_s ?a < abs_s ?b" "\<not> 2 * abs_s ?b < abs_s ?a" by simp_all
    have "coeff out (i - 1) i =
        coeff A (i - 1) i * 2 * exp (0.5 * p * (ln ?b + ln ?a)) *
        sinh (p * atanh2_real (?b - ?a) (?b + ?a)) / (?b - ?a)"
      using compute2x2_superdiag_CloseUnequal [OF ne c, of ?F ?L p out] sup
      unfolding li lp
      by (simp add: real_scalar_def exact_real_libm_def matrix_power_unwinder_def del: One_nat_def)
    also have "\<dots> = coeff A (i - 1) i *
        (2 * exp (0.5 * p * (ln ?b + ln ?a)) * sinh (p * atanh2_real (?b - ?a) (?b + ?a))) /
        (?b - ?a)"
      by (simp only: mult.assoc)
    also have "\<dots> = coeff A (i - 1) i * (?b powr p - ?a powr p) / (?b - ?a)"
      by (simp only: sinh_form_real [OF pa pb])
    finally show ?thesis .
  qed
  with eq di dp pw show ?thesis by simp
qed

lemma compute2x2_divided_difference_complex:
  fixes A :: "complex matrix"
  assumes dA: "has_dims A n n" and dres: "has_dims res n n" and i1: "1 \<le> i" and i2: "i < n"
    and sep: "2 * abs_s (coeff A (i - 1) (i - 1)) \<le> abs_s (coeff A i i) \<or>
              2 * abs_s (coeff A i i) \<le> abs_s (coeff A (i - 1) (i - 1))"
    and ne: "coeff A (i - 1) (i - 1) \<noteq> coeff A i i"
  shows "\<exists>out. compute2x2 (complex_scalar (exact_complex_libm atanh2_complex)) A res p = Inr out \<and>
       coeff out (i - 1) i =
         coeff A (i - 1) i * (coeff out i i - coeff out (i - 1) (i - 1)) /
         (coeff A i i - coeff A (i - 1) (i - 1))"
proof -
  let ?F = "complex_scalar (exact_complex_libm atanh2_complex)"
  let ?L = "map (log_s ?F) (diagonal A)"
  let ?a = "coeff A (i - 1) (i - 1)" and ?b = "coeff A i i"
  from dA have n: "cols A = n" by (rule cols_has_dims)
  from dres i1 i2 n obtain out where eq: "compute2x2 ?F A res p = Inr out"
    and di: "coeff out i i = pow_s ?F ?b p"
    and dp: "coeff out (i - 1) (i - 1) = pow_s ?F ?a p"
    and sup: "compute2x2_superdiag ?F A ?L p i out = Inr (coeff out (i - 1) i)"
    using compute2x2_superdiag_at [of res A i ?F p] by auto
  have li: "?L ! i = log_complex ?b"
    using diagonal_nth [OF dA i2, of "log_s ?F"]
    by (simp add: complex_scalar_def exact_complex_libm_def)
  from i2 have i3: "i - 1 < n" by simp
  have lp: "?L ! (i - 1) = log_complex ?a"
    using diagonal_nth [OF dA i3, of "log_s ?F"]
    by (simp add: complex_scalar_def exact_complex_libm_def)
  have pw: "pow_s ?F ?b p = exp (of_real p * log_complex ?b)"
    "pow_s ?F ?a p = exp (of_real p * log_complex ?a)"
    by (simp_all add: complex_scalar_def exact_complex_libm_def)
  from at_least_double_cases [OF sep ne]
  have "coeff out (i - 1) i =
      coeff A (i - 1) i * (exp (of_real p * log_complex ?b) - exp (of_real p * log_complex ?a)) /
      (?b - ?a)"
  proof
    assume s: "2 * abs_s ?a < abs_s ?b \<or> 2 * abs_s ?b < abs_s ?a"
    from compute2x2_superdiag_WellSeparated [OF s, of ?F ?L p out] sup
    show ?thesis by (simp add: di dp pw del: One_nat_def)
  next
    assume h: "?a \<noteq> 0 \<and> ?b \<noteq> 0 \<and> \<not> 2 * abs_s ?a < abs_s ?b \<and> \<not> 2 * abs_s ?b < abs_s ?a"
    then have c: "\<not> 2 * abs_s ?a < abs_s ?b" "\<not> 2 * abs_s ?b < abs_s ?a"
      and a0: "?a \<noteq> 0" and b0: "?b \<noteq> 0" by simp_all
    have "coeff out (i - 1) i =
        coeff A (i - 1) i * 2 *
        exp (of_real (0.5 * p) * (log_complex ?b + log_complex ?a)) *
        sinh (of_real p * (atanh2_complex (?b - ?a) (?b + ?a) +
                Complex 0 (pi * of_int \<lceil>(Im (log_complex ?b - log_complex ?a) - pi) / (2 * pi)\<rceil>))) /
        (?b - ?a)"
      using compute2x2_superdiag_CloseUnequal [OF ne c, of ?F ?L p out] sup
      unfolding li lp
      by (simp add: complex_scalar_def exact_complex_libm_def matrix_power_unwinder_def
          del: One_nat_def)
    also have "\<dots> = coeff A (i - 1) i *
        (2 * exp (of_real (0.5 * p) * (log_complex ?b + log_complex ?a)) *
         sinh (of_real p * (atanh2_complex (?b - ?a) (?b + ?a) +
                Complex 0 (pi * of_int \<lceil>(Im (log_complex ?b - log_complex ?a) - pi) / (2 * pi)\<rceil>)))) /
        (?b - ?a)"
      by (simp only: mult.assoc)
    also have "\<dots> = coeff A (i - 1) i *
        (exp (of_real p * log_complex ?b) - exp (of_real p * log_complex ?a)) / (?b - ?a)"
      by (simp only: sinh_form_complex [OF a0 b0])
    finally show ?thesis .
  qed
  with eq di dp pw show ?thesis by simp
qed

text \<open>
  Claim C6, as the code has it: for every adjacent diagonal pair in which one eigenvalue's
  magnitude is at least double the other's (in either direction), the 2x2 block solver
  sets the super-diagonal entry to
  \<open>T[i-1,i] * (output[i,i] - output[i-1,i-1]) / (T[i,i] - T[i-1,i-1])\<close>, provided that a pair
  of which one magnitude is exactly double the other is a pair of unequal complex numbers
  or of positive reals. When the magnitude is more than double, the code computes this
  quotient itself, for every scalar type and every numeric library, and the divisor is not
  zero. When it is exactly double, the code takes the hyperbolic-sine branch, whose value
  in exact arithmetic is the same quotient where the logarithms are defined. For
  \<open>T = [[4,1],[0,9]]\<close> and \<open>p = 0.5\<close> the result is \<open>[[2,0.2],[r,3]]\<close>, where \<open>r\<close> is the
  entry below the diagonal that the output had before: it is not written.
\<close>

theorem compute2x2_at_least_double:
  fixes A :: "'a::real_normed_field matrix" and B :: "real matrix" and C :: "complex matrix"
  shows
  "(has_dims res (cols A) (cols A) \<and> 1 \<le> i \<and> i < cols A \<and>
    (2 * abs_s (coeff A (i - 1) (i - 1)) < abs_s (coeff A i i) \<or>
     2 * abs_s (coeff A i i) < abs_s (coeff A (i - 1) (i - 1))) \<longrightarrow>
    (\<exists>out. compute2x2 F A res p = Inr out \<and>
       coeff A i i - coeff A (i - 1) (i - 1) \<noteq> 0 \<and>
       coeff out (i - 1) i =
         coeff A (i - 1) i * (coeff out i i - coeff out (i - 1) (i - 1)) /
         (coeff A i i - coeff A (i - 1) (i - 1)))) \<and>
   (has_dims B m m \<and> has_dims resr m m \<and> 1 \<le> j \<and> j < m \<and>
    0 < coeff B (j - 1) (j - 1) \<and> 0 < coeff B j j \<and>
    (2 * abs_s (coeff B (j - 1) (j - 1)) \<le> abs_s (coeff B j j) \<or>
     2 * abs_s (coeff B j j) \<le> abs_s (coeff B (j - 1) (j - 1))) \<longrightarrow>
    (\<exists>out. compute2x2 (real_scalar (exact_real_libm atanh2_real)) B resr q = Inr out \<and>
       coeff B j j - coeff B (j - 1) (j - 1) \<noteq> 0 \<and>
       coeff out (j - 1) j =
         coeff B (j - 1) j * (coeff out j j - coeff out (j - 1) (j - 1)) /
         (coeff B j j - coeff B (j - 1) (j - 1)))) \<and>
   (has_dims C n n \<and> has_dims resc n n \<and> 1 \<le> k \<and> k < n \<and>
    coeff C (k - 1) (k - 1) \<noteq> coeff C k k \<and>
    (2 * abs_s (coeff C (k - 1) (k - 1)) \<le> abs_s (coeff C k k) \<or>
     2 * abs_s (coeff C k k) \<le> abs_s (coeff C (k - 1) (k - 1))) \<longrightarrow>
    (\<exists>out. compute2x2 (complex_scalar (exact_complex_libm atanh2_complex)) C resc r = Inr out \<and>
       coeff out (k - 1) k =
         coeff C (k - 1) k * (coeff out k k - coeff out (k - 1) (k - 1)) /
         (coeff C k k - coeff C (k - 1) (k - 1)))) \<and>
   compute2x2 (real_scalar (exact_real_libm atanh2)) [[4, 1], [0, 9]]
     [[r00, r01], [r10, r11]] (1 / 2) = Inr [[2, 1 / 5], [r10, 3]]"
proof (intro conjI impI)
  assume h: "has_dims res (cols A) (cols A) \<and> 1 \<le> i \<and> i < cols A \<and>
    (2 * abs_s (coeff A (i - 1) (i - 1)) < abs_s (coeff A i i) \<or>
     2 * abs_s (coeff A i i) < abs_s (coeff A (i - 1) (i - 1)))"
  then obtain out where eq: "compute2x2 F A res p = Inr out"
    and sup: "compute2x2_superdiag F A (map (log_s F) (diagonal A)) p i out =
                Inr (coeff out (i - 1) i)"
    using compute2x2_superdiag_at [of res A i F p] by blast
  from h have sep: "2 * abs_s (coeff A (i - 1) (i - 1)) < abs_s (coeff A i i) \<or>
     2 * abs_s (coeff A i i) < abs_s (coeff A (i - 1) (i - 1))" by simp
  from compute2x2_superdiag_WellSeparated [OF sep, of F "map (log_s F) (diagonal A)" p out] sup eq
  show "\<exists>out. compute2x2 F A res p = Inr out \<and>
       coeff A i i - coeff A (i - 1) (i - 1) \<noteq> 0 \<and>
       coeff out (i - 1) i =
         coeff A (i - 1) i * (coeff out i i - coeff out (i - 1) (i - 1)) /
         (coeff A i i - coeff A (i - 1) (i - 1))"
    by auto
next
  assume h: "has_dims B m m \<and> has_dims resr m m \<and> 1 \<le> j \<and> j < m \<and>
    0 < coeff B (j - 1) (j - 1) \<and> 0 < coeff B j j \<and>
    (2 * abs_s (coeff B (j - 1) (j - 1)) \<le> abs_s (coeff B j j) \<or>
     2 * abs_s (coeff B j j) \<le> abs_s (coeff B (j - 1) (j - 1)))"
  then have dB: "has_dims B m m" and dres: "has_dims resr m m" and j1: "1 \<le> j" and j2: "j < m"
    and pa: "0 < coeff B (j - 1) (j - 1)" and pb: "0 < coeff B j j"
    and sep: "2 * abs_s (coeff B (j - 1) (j - 1)) \<le> abs_s (coeff B j j) \<or>
     2 * abs_s (coeff B j j) \<le> abs_s (coeff B (j - 1) (j - 1))" by simp_all
  from pa pb sep have ne: "coeff B (j - 1) (j - 1) \<noteq> coeff B j j"
    by (auto simp: abs_s_def)
  from compute2x2_divided_difference_real [OF dB dres j1 j2 pa pb ne, of q] ne
  show "\<exists>out. compute2x2 (real_scalar (exact_real_libm atanh2_real)) B resr q = Inr out \<and>
       coeff B j j - coeff B (j - 1) (j - 1) \<noteq> 0 \<and>
       coeff out (j - 1) j =
         coeff B (j - 1) j * (coeff out j j - coeff out (j - 1) (j - 1)) /
         (coeff B j j - coeff B (j - 1) (j - 1))"
    by auto
next
  assume h: "has_dims C n n \<and> has_dims resc n n \<and> 1 \<le> k \<and> k < n \<and>
    coeff C (k - 1) (k - 1) \<noteq> coeff C k k \<and>
    (2 * abs_s (coeff C (k - 1) (k - 1)) \<le> abs_s (coeff C k k) \<or>
     2 * abs_s (coeff C k k) \<le> abs_s (coeff C (k - 1) (k - 1)))"
  then have dC: "has_dims C n n" and dres: "has_dims resc n n" and k1: "1 \<le> k" and k2: "k < n"
    and ne: "coeff C (k - 1) (k - 1) \<noteq> coeff C k k"
    and sep: "2 * abs_s (coeff C (k - 1) (k - 1)) \<le> abs_s (coeff C k k) \<or>
     2 * abs_s (coeff C k k) \<le> abs_s (coeff C (k - 1) (k - 1))" by simp_all
  from compute2x2_divided_difference_complex [OF dC dres k1 k2 sep ne, of r]
  show "\<exists>out. compute2x2 (complex_scalar (exact_complex_libm atanh2_complex)) C resc r = Inr out \<and>
       coeff out (k - 1) k =
         coeff C (k - 1) k * (coeff out k k - coeff out (k - 1) (k - 1)) /
         (coeff C k k - coeff C (k - 1) (k - 1))" .
next
  have sqrt9: "sqrt 9 = 3" using real_sqrt_abs [of 3] by simp
  have upt: "[1..<2] = [1::nat]" by (simp add: upt_rec)
  show "compute2x2 (real_scalar (exact_real_libm atanh2)) [[4, 1], [0, 9]]
     [[r00, r01], [r10, r11]] (1 / 2) = Inr [[2, 1 / 5], [r10, 3]]"
    by (simp add: compute2x2_def compute2x2_step_def compute2x2_superdiag_def
        compute2x2_case_def sdiv_def set_coeff_def coeff_def cols_def rows_def diagonal_def
        abs_s_def real_scalar_def exact_real_libm_def Let_def upt powr_half_sqrt sqrt9)
qed

theorem compute2x2_at_least_double_witness:
  "2 * abs_s (4 :: real) < abs_s (9 :: real) \<and>
   (\<exists>out. compute2x2 (real_scalar (exact_real_libm atanh2_real))
            [[4, 1], [0, 9]] [[0, 0], [0, 0]] (1 / 2) = Inr out \<and>
          coeff out 0 1 = 1 * (coeff out 1 1 - coeff out 0 0) / (9 - 4)) \<and>
   compute2x2 (real_scalar (exact_real_libm atanh2_real))
            [[4, 1], [0, 9]] [[0, 0], [0, 0]] (1 / 2) = Inr [[2, 1 / 5], [0, 3]] \<and>
   2 * abs_s (1 :: real) = abs_s (2 :: real) \<and>
   compute2x2 (real_scalar (exact_real_libm atanh2_real))
            [[1, 1], [0, 2]] [[0, 0], [0, 0]] 2 = Inr [[1, 3], [0, 4]] \<and>
   2 * abs_s \<i> = abs_s (2 :: complex) \<and>
   (\<exists>out. compute2x2 (complex_scalar (exact_complex_libm atanh2_complex))
            [[\<i>, 1], [0, 2]] [[0, 0], [0, 0]] 2 = Inr out \<and>
          coeff out 0 1 = 1 * (coeff out 1 1 - coeff out 0 0) / (2 - \<i>))"
proof -
  let ?A = "[[4, 1], [0, 9 :: real]]" and ?B = "[[1, 1], [0, 2 :: real]]"
  let ?C = "[[\<i>, 1], [0, 2 :: complex]]"
  let ?Zr = "[[0, 0], [0, 0 :: real]]" and ?Zc = "[[0, 0], [0, 0 :: complex]]"
  let ?F = "real_scalar (exact_real_libm atanh2_real)"
  let ?G = "complex_scalar (exact_complex_libm atanh2_complex)"
  have hA: "has_dims ?Zr (cols ?A) (cols ?A) \<and> 1 \<le> (1::nat) \<and> 1 < cols ?A \<and>
    (2 * abs_s (coeff ?A (1 - 1) (1 - 1)) < abs_s (coeff ?A 1 1) \<or>
     2 * abs_s (coeff ?A 1 1) < abs_s (coeff ?A (1 - 1) (1 - 1)))"
    by (simp add: has_dims_def cols_def coeff_def abs_s_def)
  have hB: "has_dims ?B 2 2 \<and> has_dims ?Zr 2 2 \<and> 1 \<le> (1::nat) \<and> (1::nat) < 2 \<and>
    0 < coeff ?B (1 - 1) (1 - 1) \<and> 0 < coeff ?B 1 1 \<and>
    (2 * abs_s (coeff ?B (1 - 1) (1 - 1)) \<le> abs_s (coeff ?B 1 1) \<or>
     2 * abs_s (coeff ?B 1 1) \<le> abs_s (coeff ?B (1 - 1) (1 - 1)))"
    by (simp add: has_dims_def coeff_def abs_s_def)
  have hC: "has_dims ?C 2 2 \<and> has_dims ?Zc 2 2 \<and> 1 \<le> (1::nat) \<and> (1::nat) < 2 \<and>
    coeff ?C (1 - 1) (1 - 1) \<noteq> coeff ?C 1 1 \<and>
    (2 * abs_s (coeff ?C (1 - 1) (1 - 1)) \<le> abs_s (coeff ?C 1 1) \<or>
     2 * abs_s (coeff ?C 1 1) \<le> abs_s (coeff ?C (1 - 1) (1 - 1)))"
    by (simp add: has_dims_def coeff_def abs_s_def complex_eq_iff)
  note inst = compute2x2_at_least_double
    [where A = ?A and res = ?Zr and i = 1 and F = ?F and p = "1 / 2"
       and B = ?B and m = 2 and resr = ?Zr and j = 1 and q = 2
       and C = ?C and n = 2 and resc = ?Zc and k = 1 and r = 2
       and ?atanh2.0 = atanh2_real and ?r00.0 = 0 and ?r01.0 = 0 and ?r10.0 = 0 and ?r11.0 = 0]
  note tA = inst [THEN conjunct1, THEN mp, OF hA]
  note tB = inst [THEN conjunct2, THEN conjunct1, THEN mp, OF hB]
  note tC = inst [THEN conjunct2, THEN conjunct2, THEN conjunct1, THEN mp, OF hC]
  from tA have a: "\<exists>out. compute2x2 ?F ?A ?Zr (1 / 2) = Inr out \<and>
          coeff out 0 1 = 1 * (coeff out 1 1 - coeff out 0 0) / (9 - 4)"
    by (simp add: coeff_def)
  from tB obtain out where
    eq: "compute2x2 ?F ?B ?Zr 2 = Inr out"
    and rel: "coeff out 0 1 = 1 * (coeff out 1 1 - coeff out 0 0) / (2 - 1)"
    by (auto simp: coeff_def)
  have upt: "[1..<2] = [1::nat]" by (simp add: upt_rec)
  obtain s where ev: "compute2x2 ?F ?B ?Zr 2 = Inr [[1, s], [0, 4]]"
    by (simp add: compute2x2_def compute2x2_step_def compute2x2_superdiag_def
        compute2x2_case_def sdiv_def set_coeff_def coeff_def cols_def rows_def diagonal_def
        abs_s_def real_scalar_def exact_real_libm_def Let_def upt)
  from eq ev have out: "out = [[1, s], [0, 4]]" by simp
  from rel have "s = 3" by (simp add: out coeff_def)
  with ev have b: "compute2x2 ?F ?B ?Zr 2 = Inr [[1, 3], [0, 4]]" by simp
  from tC have c: "\<exists>out. compute2x2 ?G ?C ?Zc 2 = Inr out \<and>
          coeff out 0 1 = 1 * (coeff out 1 1 - coeff out 0 0) / (2 - \<i>)"
    by (simp add: coeff_def)
  note ex = inst [THEN conjunct2, THEN conjunct2, THEN conjunct2]
  from a ex b c show ?thesis by (simp add: abs_s_def)
qed

text \<open>
  A real pair with negative entries of which one magnitude is exactly double the other:
  \<open>T = [[-1,1],[0,-2]]\<close> with \<open>p = 2\<close>. The pair goes to the hyperbolic-sine branch, and
  for every power function \<open>pw\<close> and every logarithm \<open>lg\<close> the entry stored is
  \<open>-(3/2) * exp (lg (-2) + lg (-1))\<close>: it is computed from the logarithms of \<open>-2\<close> and
  \<open>-1\<close>, which \<^verbatim>\<open>std::log\<close> does not have (it returns NaN), and not from the diagonal of
  the output. With a logarithm that is exact on the positive reals and \<open>0\<close> elsewhere the
  entry is \<open>-3/2\<close>, where the quotient of the claim is \<open>1 * (4 - 1) / (-2 - (-1)) = -3\<close>.
\<close>

theorem compute2x2_exactly_double_negative:
  "\<forall>pw lg.
     2 * abs_s (- 1 :: real) \<le> abs_s (- 2 :: real) \<and>
     compute2x2
       (real_scalar \<lparr>pow_s = pw, log_s = lg, exp_s = exp, sinh_s = sinh, atanh2_s = atanh2_real\<rparr>)
       [[- 1, 1], [0, - 2]] [[0, 0], [0, 0]] 2 =
       Inr [[pw (- 1) 2, - (3 / 2) * exp (lg (- 2) + lg (- 1))], [0, pw (- 2) 2]] \<and>
     compute2x2
       (real_scalar \<lparr>pow_s = (\<lambda>x p. x powr p), log_s = (\<lambda>x. if 0 < x then ln x else 0),
                     exp_s = exp, sinh_s = sinh, atanh2_s = atanh2_real\<rparr>)
       [[- 1, 1], [0, - 2]] [[0, 0], [0, 0]] 2 = Inr [[1, - (3 / 2)], [0, 4]] \<and>
     - (3 / 2) \<noteq> 1 * (4 - 1) / (- 2 - (- 1 :: real)) \<and>
     1 * (4 - 1) / (- 2 - (- 1 :: real)) = - 3"
proof (intro allI)
  fix pw :: "real \<Rightarrow> real \<Rightarrow> real" and lg :: "real \<Rightarrow> real"
  let ?T = "[[- 1, 1], [0, - 2 :: real]]" and ?Z = "[[0, 0], [0, 0 :: real]]"
  have upt: "[1..<2] = [1::nat]" "[0..<2] = [0, 1 :: nat]" by (simp_all add: upt_rec)
  have "atanh2_real (- 2 - (- 1)) (- 2 + (- 1)) = 0.5 * ln 2"
    by (simp add: atanh2_real_def)
  then have at: "atanh2_real (- 1) (- 3) = ln 2 / 2" by simp
  have e2: "exp (ln (2 :: real)) = 2" by simp
  have em: "exp (- ln (2 :: real)) = 1 / 2" by (simp add: exp_minus)
  have sh: "sinh (ln (2 :: real)) = 3 / 4"
    by (simp only: sinh_field_def e2 em) simp
  have gen: "compute2x2
       (real_scalar \<lparr>pow_s = pw', log_s = lg', exp_s = exp, sinh_s = sinh, atanh2_s = atanh2_real\<rparr>)
       ?T ?Z 2 =
       Inr [[pw' (- 1) 2, - (3 / 2) * exp (lg' (- 2) + lg' (- 1))], [0, pw' (- 2) 2]]"
    for pw' :: "real \<Rightarrow> real \<Rightarrow> real" and lg' :: "real \<Rightarrow> real"
    by (simp add: compute2x2_def compute2x2_step_def compute2x2_superdiag_def
        compute2x2_case_def sdiv_def set_coeff_def coeff_def cols_def rows_def diagonal_def
        abs_s_def real_scalar_def matrix_power_unwinder_def Let_def upt at sh)
  have "exp (2 * ln (2 :: real)) = exp (ln 2) * exp (ln 2)" by (simp only: mult_2 exp_add)
  then have e4: "exp (2 * ln (2 :: real)) = 4" by simp
  have p4: "(- 2 :: real) powr 2 = 4" by (simp add: powr_def ln_minus e4)
  have p1: "(- 1 :: real) powr 2 = 1" by (simp add: powr_def ln_minus)
  have inst: "compute2x2
       (real_scalar \<lparr>pow_s = (\<lambda>x p. x powr p), log_s = (\<lambda>x. if 0 < x then ln x else 0),
                     exp_s = exp, sinh_s = sinh, atanh2_s = atanh2_real\<rparr>)
       ?T ?Z 2 = Inr [[1, - (3 / 2)], [0, 4]]"
    unfolding gen by (simp add: p4 p1)
  show "2 * abs_s (- 1 :: real) \<le> abs_s (- 2 :: real) \<and>
     compute2x2
       (real_scalar \<lparr>pow_s = pw, log_s = lg, exp_s = exp, sinh_s = sinh, atanh2_s = atanh2_real\<rparr>)
       ?T ?Z 2 =
       Inr [[pw (- 1) 2, - (3 / 2) * exp (lg (- 2) + lg (- 1))], [0, pw (- 2) 2]] \<and>
     compute2x2
       (real_scalar \<lparr>pow_s = (\<lambda>x p. x powr p), log_s = (\<lambda>x. if 0 < x then ln x else 0),
                     exp_s = exp, sinh_s = sinh, atanh2_s = atanh2_real\<rparr>)
       ?T ?Z 2 = Inr [[1, - (3 / 2)], [0, 4]] \<and>
     - (3 / 2) \<noteq> 1 * (4 - 1) / (- 2 - (- 1 :: real)) \<and>
     1 * (4 - 1) / (- 2 - (- 1 :: real)) = - 3"
    using gen [of pw lg] inst by (simp add: abs_s_def)
qed

text \<open>
  Claim C5: for every adjacent diagonal pair whose entries are unequal and of which
  neither magnitude is more than double the other, the super-diagonal entry is
  \<open>T[i-1,i] * 2 * exp(0.5*p*(log T[i,i] + log T[i-1,i-1])) * sinh(p*w) / (T[i,i] - T[i-1,i-1])\<close>,
  where for a complex scalar \<open>w = atanh2(T[i,i]-T[i-1,i-1], T[i,i]+T[i-1,i-1]) + i*pi*u\<close>
  with \<open>u = ceil((Im(log T[i,i]) - Im(log T[i-1,i-1]) - pi) / (2*pi))\<close>, and for a real
  scalar \<open>u = 0\<close> and \<open>w\<close> is the \<open>atanh2\<close> term alone.
\<close>

theorem compute2x2_close_unequal:
  fixes A :: "complex matrix" and L :: "complex libm"
    and B :: "real matrix" and M :: "real libm"
  shows
  "(has_dims A n n \<and> has_dims res n n \<and> 1 \<le> i \<and> i < n \<and>
    coeff A (i - 1) (i - 1) \<noteq> coeff A i i \<and>
    \<not> 2 * abs_s (coeff A (i - 1) (i - 1)) < abs_s (coeff A i i) \<and>
    \<not> 2 * abs_s (coeff A i i) < abs_s (coeff A (i - 1) (i - 1)) \<longrightarrow>
    (\<exists>out. compute2x2 (complex_scalar L) A res p = Inr out \<and>
       coeff out (i - 1) i =
         coeff A (i - 1) i * 2 *
         exp_s L (of_real (0.5 * p) *
                  (log_s L (coeff A i i) + log_s L (coeff A (i - 1) (i - 1)))) *
         sinh_s L (of_real p *
           (atanh2_s L (coeff A i i - coeff A (i - 1) (i - 1))
                       (coeff A i i + coeff A (i - 1) (i - 1)) +
            Complex 0 (pi * of_int \<lceil>(Im (log_s L (coeff A i i)) -
                                       Im (log_s L (coeff A (i - 1) (i - 1))) - pi) / (2 * pi)\<rceil>))) /
         (coeff A i i - coeff A (i - 1) (i - 1)))) \<and>
   (has_dims B m m \<and> has_dims resr m m \<and> 1 \<le> j \<and> j < m \<and>
    coeff B (j - 1) (j - 1) \<noteq> coeff B j j \<and>
    \<not> 2 * abs_s (coeff B (j - 1) (j - 1)) < abs_s (coeff B j j) \<and>
    \<not> 2 * abs_s (coeff B j j) < abs_s (coeff B (j - 1) (j - 1)) \<longrightarrow>
    (\<exists>out. compute2x2 (real_scalar M) B resr q = Inr out \<and>
       coeff out (j - 1) j =
         coeff B (j - 1) j * 2 *
         exp_s M (0.5 * q * (log_s M (coeff B j j) + log_s M (coeff B (j - 1) (j - 1)))) *
         sinh_s M (q * atanh2_s M (coeff B j j - coeff B (j - 1) (j - 1))
                                  (coeff B j j + coeff B (j - 1) (j - 1))) /
         (coeff B j j - coeff B (j - 1) (j - 1)))) \<and>
   \<lceil>(imag_s (real_scalar M) (x - y) - pi) / (2 * pi)\<rceil> = 0"
proof (intro conjI impI)
  assume h: "has_dims A n n \<and> has_dims res n n \<and> 1 \<le> i \<and> i < n \<and>
    coeff A (i - 1) (i - 1) \<noteq> coeff A i i \<and>
    \<not> 2 * abs_s (coeff A (i - 1) (i - 1)) < abs_s (coeff A i i) \<and>
    \<not> 2 * abs_s (coeff A i i) < abs_s (coeff A (i - 1) (i - 1))"
  let ?F = "complex_scalar L"
  let ?L = "map (log_s ?F) (diagonal A)"
  from h have dA: "has_dims A n n" and dres: "has_dims res n n"
    and i1: "1 \<le> i" and i2: "i < n" by simp_all
  from dA have n: "cols A = n" by (rule cols_has_dims)
  from dres i1 i2 n obtain out where eq: "compute2x2 ?F A res p = Inr out"
    and sup: "compute2x2_superdiag ?F A ?L p i out = Inr (coeff out (i - 1) i)"
    using compute2x2_superdiag_at [of res A i ?F p] by auto
  have li: "?L ! i = log_s L (coeff A i i)"
    using diagonal_nth [OF dA i2, of "log_s L"] by (simp add: complex_scalar_def)
  from i2 have i3: "i - 1 < n" by simp
  have lp: "?L ! (i - 1) = log_s L (coeff A (i - 1) (i - 1))"
    using diagonal_nth [OF dA i3, of "log_s L"] by (simp add: complex_scalar_def)
  from h have c: "coeff A (i - 1) (i - 1) \<noteq> coeff A i i"
    "\<not> 2 * abs_s (coeff A (i - 1) (i - 1)) < abs_s (coeff A i i)"
    "\<not> 2 * abs_s (coeff A i i) < abs_s (coeff A (i - 1) (i - 1))" by simp_all
  have "coeff out (i - 1) i =
         coeff A (i - 1) i * 2 *
         exp_s L (of_real (0.5 * p) *
                  (log_s L (coeff A i i) + log_s L (coeff A (i - 1) (i - 1)))) *
         sinh_s L (of_real p *
           (atanh2_s L (coeff A i i - coeff A (i - 1) (i - 1))
                       (coeff A i i + coeff A (i - 1) (i - 1)) +
            Complex 0 (pi * of_int \<lceil>(Im (log_s L (coeff A i i)) -
                                       Im (log_s L (coeff A (i - 1) (i - 1))) - pi) / (2 * pi)\<rceil>))) /
         (coeff A i i - coeff A (i - 1) (i - 1))"
    using sup unfolding compute2x2_superdiag_CloseUnequal [OF c] li lp
    by (simp add: complex_scalar_def matrix_power_unwinder_def)
  with eq show "\<exists>out. compute2x2 (complex_scalar L) A res p = Inr out \<and>
       coeff out (i - 1) i =
         coeff A (i - 1) i * 2 *
         exp_s L (of_real (0.5 * p) *
                  (log_s L (coeff A i i) + log_s L (coeff A (i - 1) (i - 1)))) *
         sinh_s L (of_real p *
           (atanh2_s L (coeff A i i - coeff A (i - 1) (i - 1))
                       (coeff A i i + coeff A (i - 1) (i - 1)) +
            Complex 0 (pi * of_int \<lceil>(Im (log_s L (coeff A i i)) -
                                       Im (log_s L (coeff A (i - 1) (i - 1))) - pi) / (2 * pi)\<rceil>))) /
         (coeff A i i - coeff A (i - 1) (i - 1))"
    by blast
next
  assume h: "has_dims B m m \<and> has_dims resr m m \<and> 1 \<le> j \<and> j < m \<and>
    coeff B (j - 1) (j - 1) \<noteq> coeff B j j \<and>
    \<not> 2 * abs_s (coeff B (j - 1) (j - 1)) < abs_s (coeff B j j) \<and>
    \<not> 2 * abs_s (coeff B j j) < abs_s (coeff B (j - 1) (j - 1))"
  let ?F = "real_scalar M"
  let ?L = "map (log_s ?F) (diagonal B)"
  from h have dB: "has_dims B m m" and dres: "has_dims resr m m"
    and j1: "1 \<le> j" and j2: "j < m" by simp_all
  from dB have n: "cols B = m" by (rule cols_has_dims)
  from dres j1 j2 n obtain out where eq: "compute2x2 ?F B resr q = Inr out"
    and sup: "compute2x2_superdiag ?F B ?L q j out = Inr (coeff out (j - 1) j)"
    using compute2x2_superdiag_at [of resr B j ?F q] by auto
  have li: "?L ! j = log_s M (coeff B j j)"
    using diagonal_nth [OF dB j2, of "log_s M"] by (simp add: real_scalar_def)
  from j2 have j3: "j - 1 < m" by simp
  have lp: "?L ! (j - 1) = log_s M (coeff B (j - 1) (j - 1))"
    using diagonal_nth [OF dB j3, of "log_s M"] by (simp add: real_scalar_def)
  from h have c: "coeff B (j - 1) (j - 1) \<noteq> coeff B j j"
    "\<not> 2 * abs_s (coeff B (j - 1) (j - 1)) < abs_s (coeff B j j)"
    "\<not> 2 * abs_s (coeff B j j) < abs_s (coeff B (j - 1) (j - 1))" by simp_all
  have "coeff out (j - 1) j =
         coeff B (j - 1) j * 2 *
         exp_s M (0.5 * q * (log_s M (coeff B j j) + log_s M (coeff B (j - 1) (j - 1)))) *
         sinh_s M (q * atanh2_s M (coeff B j j - coeff B (j - 1) (j - 1))
                                  (coeff B j j + coeff B (j - 1) (j - 1))) /
         (coeff B j j - coeff B (j - 1) (j - 1))"
    using sup unfolding compute2x2_superdiag_CloseUnequal [OF c] li lp
    by (simp add: real_scalar_def matrix_power_unwinder_def)
  with eq show "\<exists>out. compute2x2 (real_scalar M) B resr q = Inr out \<and>
       coeff out (j - 1) j =
         coeff B (j - 1) j * 2 *
         exp_s M (0.5 * q * (log_s M (coeff B j j) + log_s M (coeff B (j - 1) (j - 1)))) *
         sinh_s M (q * atanh2_s M (coeff B j j - coeff B (j - 1) (j - 1))
                                  (coeff B j j + coeff B (j - 1) (j - 1))) /
         (coeff B j j - coeff B (j - 1) (j - 1))"
    by blast
next
  have "(imag_s (real_scalar M) (x - y) - pi) / (2 * pi) = - (1 / 2)"
    by (simp add: real_scalar_def)
  then show "\<lceil>(imag_s (real_scalar M) (x - y) - pi) / (2 * pi)\<rceil> = 0"
    by (simp add: ceiling_eq_iff)
qed


theorem compute2x2_close_unequal_witness:
  "(\<exists>out. compute2x2 (complex_scalar (exact_complex_libm atanh2_complex))
            [[1, 1], [0, \<i>]] [[0, 0], [0, 0]] (1 / 2) = Inr out \<and>
      coeff out 0 1 =
        1 * 2 * exp (of_real (0.5 * (1 / 2)) * (log_complex \<i> + log_complex 1)) *
        sinh (of_real (1 / 2) *
          (atanh2_complex (\<i> - 1) (\<i> + 1) +
           Complex 0 (pi * of_int \<lceil>(Im (log_complex \<i>) - Im (log_complex 1) - pi) / (2 * pi)\<rceil>))) /
        (\<i> - 1)) \<and>
   (\<exists>out. compute2x2 (real_scalar (exact_real_libm atanh2_real))
            [[2, 1], [0, 3]] [[0, 0], [0, 0]] (1 / 2) = Inr out \<and>
      coeff out 0 1 =
        1 * 2 * exp (0.5 * (1 / 2) * (ln 3 + ln 2)) * sinh (1 / 2 * atanh2_real (3 - 2) (3 + 2)) /
        (3 - 2))"
proof -
  let ?A = "[[1, 1], [0, \<i>]]"
  let ?B = "[[2, 1], [0, 3 :: real]]"
  have hc: "has_dims ?A 2 2 \<and> has_dims [[0, 0], [0, 0 :: complex]] 2 2 \<and> 1 \<le> (1 :: nat) \<and>
    (1 :: nat) < 2 \<and> coeff ?A (1 - 1) (1 - 1) \<noteq> coeff ?A 1 1 \<and>
    \<not> 2 * abs_s (coeff ?A (1 - 1) (1 - 1)) < abs_s (coeff ?A 1 1) \<and>
    \<not> 2 * abs_s (coeff ?A 1 1) < abs_s (coeff ?A (1 - 1) (1 - 1))"
    by (simp add: has_dims_def coeff_def abs_s_def complex_eq_iff)
  have hr: "has_dims ?B 2 2 \<and> has_dims [[0, 0], [0, 0 :: real]] 2 2 \<and> 1 \<le> (1 :: nat) \<and>
    (1 :: nat) < 2 \<and> coeff ?B (1 - 1) (1 - 1) \<noteq> coeff ?B 1 1 \<and>
    \<not> 2 * abs_s (coeff ?B (1 - 1) (1 - 1)) < abs_s (coeff ?B 1 1) \<and>
    \<not> 2 * abs_s (coeff ?B 1 1) < abs_s (coeff ?B (1 - 1) (1 - 1))"
    by (simp add: has_dims_def coeff_def abs_s_def)
  from compute2x2_close_unequal
    [of ?A 2 "[[0, 0], [0, 0]]" 1 "exact_complex_libm atanh2_complex" "1 / 2"
        ?B 2 "[[0, 0], [0, 0]]" 1 "exact_real_libm atanh2_real" "1 / 2" 0 0] hc hr
  show ?thesis
    by (simp add: coeff_def exact_complex_libm_def exact_real_libm_def)
qed

text \<open>
  Claim C1 at \<open>T = [[2,5],[0,2]]\<close>, \<open>p = 3\<close>: the equal-diagonal branch stores
  \<open>p * pow(T[i-1,i], p-1) = 3 * 5^2 = 75\<close> above the diagonal, where the claim has
  \<open>p * pow(2, p-1) * 5 = 60\<close>.
\<close>

theorem compute2x2_equal_diag_example:
  "compute2x2 (real_scalar (exact_real_libm atanh2)) [[2, 5], [0, 2]]
     [[r00, r01], [r10, r11]] 3 = Inr [[8, 75], [r10, 8]]"
proof -
  have upt: "[1..<2] = [1::nat]" by (simp add: upt_rec)
  show ?thesis
    by (simp add: compute2x2_def compute2x2_step_def compute2x2_superdiag_def
        compute2x2_case_def sdiv_def set_coeff_def coeff_def cols_def rows_def diagonal_def
        abs_s_def real_scalar_def exact_real_libm_def Let_def upt)
qed

text \<open>
  Claim C2 at \<open>T = [[2,5],[0,2]]\<close>, \<open>p = 1\<close>: \<open>compute\<close> returns \<open>[[2,1],[r,2]]\<close>, not
  \<open>T\<close>: the entry above the diagonal is \<open>1 * pow(5, 0) = 1\<close>.
\<close>

theorem compute_exponent_one_example:
  "compute (real_scalar (exact_real_libm atanh2)) ty msqrt solve [[2, 5], [0, 2]]
     [[r00, r01], [r10, r11]] 1 = Some (Inr [[2, 1], [r10, 2]])"
proof -
  have upt: "[1..<2] = [1::nat]" by (simp add: upt_rec)
  show ?thesis
    by (simp add: compute_def compute2x2_def compute2x2_step_def compute2x2_superdiag_def
        compute2x2_case_def sdiv_def set_coeff_def coeff_def cols_def rows_def diagonal_def
        abs_s_def real_scalar_def exact_real_libm_def Let_def upt)
qed

text \<open>
  Claim C10: in \<open>compute2x2\<close> no division is by zero. The divided-difference branch and
  the hyperbolic-sine branch are taken only when \<open>T[i-1,i-1] \<noteq> T[i,i]\<close> (the
  equal-diagonal branch is taken exactly when they are equal), so their divisor
  \<open>T[i,i] - T[i-1,i-1]\<close> is not zero, and \<open>compute2x2\<close> returns a matrix for every input.
\<close>

theorem compute2x2_no_division_by_zero:
  "(\<exists>out. compute2x2 F A res p = Inr out) \<and>
   (\<exists>v. compute2x2_superdiag F A L p i res = Inr v) \<and>
   ((compute2x2_case a b = EqualDiag) = (a = b)) \<and>
   (compute2x2_case a b \<noteq> EqualDiag \<longrightarrow> b - a \<noteq> 0)"
proof (intro conjI impI)
  show "\<exists>out. compute2x2 F A res p = Inr out" by (rule compute2x2_total)
  show "\<exists>v. compute2x2_superdiag F A L p i res = Inr v" by (rule compute2x2_superdiag_total)
  show "(compute2x2_case a b = EqualDiag) = (a = b)" by (rule compute2x2_case_EqualDiag)
  assume "compute2x2_case a b \<noteq> EqualDiag"
  then show "b - a \<noteq> 0" by (simp add: compute2x2_case_EqualDiag)
qed

theorem compute2x2_no_division_by_zero_witness:
  "compute2x2_case (4 :: real) 9 \<noteq> EqualDiag \<and> (9 :: real) - 4 \<noteq> 0 \<and>
   (\<exists>out. compute2x2 (real_scalar (exact_real_libm atanh2_real)) [[4, 1], [0, 9]]
            [[0, 0], [0, 0]] (1 / 2) = Inr out)"
proof -
  have h: "compute2x2_case (4 :: real) 9 \<noteq> EqualDiag"
    by (simp add: compute2x2_case_def abs_s_def)
  from compute2x2_no_division_by_zero
    [of "real_scalar (exact_real_libm atanh2_real)" "[[4, 1], [0, 9]]" "[[0, 0], [0, 0]]"
        "1 / 2" "[]" 1 "4 :: real" "9 :: real"] h
  show ?thesis by simp
qed

text \<open>
  Claim C7: \<open>compute\<close> dispatches on the number of rows. A 0x0 input leaves the output
  as it is; a 1x1 input stores \<open>pow(T[0,0], p)\<close> in \<open>output[0,0]\<close> and nothing else; a 2x2
  input is handed to \<open>compute2x2\<close>; every larger input is handed to \<open>computeBig\<close>.
\<close>

theorem compute_dispatch:
  "(rows A = 0 \<longrightarrow> compute F ty msqrt solve A res p = Some (Inr res)) \<and>
   (rows A = 1 \<longrightarrow>
      compute F ty msqrt solve A res p =
        Some (Inr (set_coeff res 0 0 (pow_s F (coeff A 0 0) p))) \<and>
      (\<forall>r c. (r, c) \<noteq> (0, 0) \<longrightarrow>
         coeff (set_coeff res 0 0 (pow_s F (coeff A 0 0) p)) r c = coeff res r c) \<and>
      (has_dims res 1 1 \<longrightarrow>
         set_coeff res 0 0 (pow_s F (coeff A 0 0) p) = [[pow_s F (coeff A 0 0) p]])) \<and>
   (rows A = 2 \<longrightarrow> compute F ty msqrt solve A res p = Some (compute2x2 F A res p)) \<and>
   (2 < rows A \<longrightarrow> compute F ty msqrt solve A res p = computeBig F ty msqrt solve A res p)"
proof (intro conjI impI allI)
  assume "rows A = 0"
  then show "compute F ty msqrt solve A res p = Some (Inr res)" by (simp add: compute_def)
next
  assume "rows A = 1"
  then show "compute F ty msqrt solve A res p =
        Some (Inr (set_coeff res 0 0 (pow_s F (coeff A 0 0) p)))"
    by (simp add: compute_def)
next
  fix r c :: nat
  assume "(r, c) \<noteq> (0, 0)"
  then show "coeff (set_coeff res 0 0 (pow_s F (coeff A 0 0) p)) r c = coeff res r c"
    by (auto simp: coeff_set_coeff)
next
  assume "has_dims res 1 1"
  then obtain x where "res = [[x]]"
    by (cases res; cases "hd res") (auto simp: has_dims_def)
  then show "set_coeff res 0 0 (pow_s F (coeff A 0 0) p) = [[pow_s F (coeff A 0 0) p]]"
    by (simp add: set_coeff_def)
next
  assume "rows A = 2"
  then have "rows A = Suc (Suc 0)" by simp
  then show "compute F ty msqrt solve A res p = Some (compute2x2 F A res p)"
    by (simp add: compute_def)
next
  assume "2 < rows A"
  then have "rows A = Suc (Suc (Suc (rows A - 3)))" by simp
  then obtain k where "rows A = Suc (Suc (Suc k))" ..
  then show "compute F ty msqrt solve A res p = computeBig F ty msqrt solve A res p"
    by (simp add: compute_def)
qed

theorem compute_dispatch_witness:
  "\<forall>ty msqrt solve p res.
     compute (real_scalar (exact_real_libm atanh2_real)) ty msqrt solve [] res p = Some (Inr res) \<and>
     compute (real_scalar (exact_real_libm atanh2_real)) ty msqrt solve [[4]] [[0]] (1 / 2) =
       Some (Inr [[2]]) \<and>
     compute (real_scalar (exact_real_libm atanh2_real)) ty msqrt solve [[4, 1], [0, 9]] res p =
       Some (compute2x2 (real_scalar (exact_real_libm atanh2_real)) [[4, 1], [0, 9]] res p) \<and>
     compute (real_scalar (exact_real_libm atanh2_real)) ty msqrt solve
         [[1, 2, 3], [0, 1, 2], [0, 0, 1]] res p =
       computeBig (real_scalar (exact_real_libm atanh2_real)) ty msqrt solve
         [[1, 2, 3], [0, 1, 2], [0, 0, 1]] res p"
proof (intro allI)
  fix ty :: real_scalar_type and msqrt :: "real matrix \<Rightarrow> real matrix"
    and solve :: "real matrix \<Rightarrow> real matrix \<Rightarrow> real matrix" and p :: real and res :: "real matrix"
  let ?F = "real_scalar (exact_real_libm atanh2_real)"
  have r0: "rows ([] :: real matrix) = 0" and r1: "rows [[4 :: real]] = 1"
    and r2: "rows [[4, 1], [0, 9 :: real]] = 2"
    and r3: "2 < rows [[1, 2, 3], [0, 1, 2], [0, 0, 1 :: real]]"
    and d1: "has_dims [[0 :: real]] 1 1"
    by (simp_all add: rows_def has_dims_def)
  have pw: "pow_s ?F (coeff [[4]] 0 0) (1 / 2) = 2"
    by (simp add: real_scalar_def exact_real_libm_def coeff_def powr_half_sqrt)
  from compute_dispatch [of "[]" ?F ty msqrt solve res p] r0
    compute_dispatch [of "[[4]]" ?F ty msqrt solve "[[0]]" "1 / 2"] r1 d1 pw
    compute_dispatch [of "[[4, 1], [0, 9]]" ?F ty msqrt solve res p] r2
    compute_dispatch [of "[[1, 2, 3], [0, 1, 2], [0, 0, 1]]" ?F ty msqrt solve res p] r3
  show "compute ?F ty msqrt solve [] res p = Some (Inr res) \<and>
     compute ?F ty msqrt solve [[4]] [[0]] (1 / 2) = Some (Inr [[2]]) \<and>
     compute ?F ty msqrt solve [[4, 1], [0, 9]] res p =
       Some (compute2x2 ?F [[4, 1], [0, 9]] res p) \<and>
     compute ?F ty msqrt solve [[1, 2, 3], [0, 1, 2], [0, 0, 1]] res p =
       computeBig ?F ty msqrt solve [[1, 2, 3], [0, 1, 2], [0, 0, 1]] res p"
    by simp
qed

subsection \<open>The scaling loop\<close>

lemma upt_0_3: "[0..<3] = [0, 1, 2 :: nat]"
  by (simp add: upt_rec)

lemmas mat_eval = Identity_def mat_sub_def colwise_abs_sum_max_def triangularView_Upper_def
  rows_def cols_def coeff_def abs_s_def upt_0_3

lemma triu_diag3:
  "triangularView_Upper [[x, 0, 0], [0, 1, 0], [0, 0, 1 :: real]] = [[x, 0, 0], [0, 1, 0], [0, 0, 1]]"
  by (simp add: mat_eval)

lemma deg_01: "matrix_power_get_pade_degree Double (1 / 10) = 5"
  by (simp add: matrix_power_get_pade_degree_def maxNormForPade_double_def pade_degree_loop.simps)
lemma deg_005: "matrix_power_get_pade_degree Double (1 / 20) = 4"
  by (simp add: matrix_power_get_pade_degree_def maxNormForPade_double_def pade_degree_loop.simps)

lemma computeBig_iter_break:
  assumes "colwise_abs_sum_max (mat_sub (Identity (rows A) (cols A)) (st_T s)) < maxNormForPade ty"
    and "matrix_power_get_pade_degree ty
           (colwise_abs_sum_max (mat_sub (Identity (rows A) (cols A)) (st_T s))) -
         matrix_power_get_pade_degree ty
           (colwise_abs_sum_max (mat_sub (Identity (rows A) (cols A)) (st_T s)) / 2) \<le> 1 \<or>
         st_hasExtraSquareRoot s"
  shows "computeBig_iter ty msqrt A s =
     Inl \<lparr>out_degree = matrix_power_get_pade_degree ty
                (colwise_abs_sum_max (mat_sub (Identity (rows A) (cols A)) (st_T s))),
          out_IminusT = mat_sub (Identity (rows A) (cols A)) (st_T s),
          out_numberOfSquareRoots = st_numberOfSquareRoots s\<rparr>"
  using assms by (simp add: computeBig_iter_def Let_def)

lemma computeBig_iter_extra:
  assumes "colwise_abs_sum_max (mat_sub (Identity (rows A) (cols A)) (st_T s)) < maxNormForPade ty"
    and "1 < matrix_power_get_pade_degree ty
           (colwise_abs_sum_max (mat_sub (Identity (rows A) (cols A)) (st_T s))) -
         matrix_power_get_pade_degree ty
           (colwise_abs_sum_max (mat_sub (Identity (rows A) (cols A)) (st_T s)) / 2)"
    and "\<not> st_hasExtraSquareRoot s"
  shows "computeBig_iter ty msqrt A s =
     Inr \<lparr>st_T = triangularView_Upper (msqrt (st_T s)), st_hasExtraSquareRoot = True,
          st_numberOfSquareRoots = st_numberOfSquareRoots s + 1\<rparr>"
  using assms by (simp add: computeBig_iter_def Let_def)

lemma computeBig_iter_far:
  assumes "\<not> colwise_abs_sum_max (mat_sub (Identity (rows A) (cols A)) (st_T s)) < maxNormForPade ty"
  shows "computeBig_iter ty msqrt A s =
     Inr \<lparr>st_T = triangularView_Upper (msqrt (st_T s)),
          st_hasExtraSquareRoot = st_hasExtraSquareRoot s,
          st_numberOfSquareRoots = st_numberOfSquareRoots s + 1\<rparr>"
  using assms by (simp add: computeBig_iter_def Let_def)

lemma computeBig_loop_Inl:
  "computeBig_iter ty msqrt A s = Inl r \<Longrightarrow> computeBig_loop ty msqrt A s = Some r"
  by (subst computeBig_loop.simps) simp

lemma computeBig_loop_Inr:
  "computeBig_iter ty msqrt A s = Inr s' \<Longrightarrow>
   computeBig_loop ty msqrt A s = computeBig_loop ty msqrt A s'"
  by (subst computeBig_loop.simps) simp

text \<open>
  Claim C4, as the code has it: in a pass of the scaling loop where the norm of \<open>I - W\<close>
  is below the threshold, so that the degrees \<open>d\<close> and \<open>d2\<close> are computed, the loop stops
  with degree \<open>d\<close> if \<open>d - d2 \<le> 1\<close> or if the extra square root has been taken before
  (\<open>hasExtraSquareRoot\<close>); otherwise (\<open>d - d2 > 1\<close>, for the first time) it sets
  \<open>hasExtraSquareRoot\<close>, replaces \<open>W\<close> by its triangular square root and increments the
  count. In a pass where the norm is not below the threshold it takes the square root and
  increments the count, and leaves \<open>hasExtraSquareRoot\<close> as it is.
\<close>

theorem computeBig_loop_pass:
  fixes A :: "'a::real_normed_field matrix"
  defines "n \<equiv> \<lambda>s. colwise_abs_sum_max (mat_sub (Identity (rows A) (cols A)) (st_T s))"
  shows
  "(n s < maxNormForPade ty \<and>
     (matrix_power_get_pade_degree ty (n s) - matrix_power_get_pade_degree ty (n s / 2) \<le> 1 \<or>
      st_hasExtraSquareRoot s) \<longrightarrow>
    computeBig_loop ty msqrt A s =
      Some \<lparr>out_degree = matrix_power_get_pade_degree ty (n s),
            out_IminusT = mat_sub (Identity (rows A) (cols A)) (st_T s),
            out_numberOfSquareRoots = st_numberOfSquareRoots s\<rparr>) \<and>
   (n s < maxNormForPade ty \<and>
     1 < matrix_power_get_pade_degree ty (n s) - matrix_power_get_pade_degree ty (n s / 2) \<and>
     \<not> st_hasExtraSquareRoot s \<longrightarrow>
    computeBig_loop ty msqrt A s =
      computeBig_loop ty msqrt A
        \<lparr>st_T = triangularView_Upper (msqrt (st_T s)), st_hasExtraSquareRoot = True,
         st_numberOfSquareRoots = st_numberOfSquareRoots s + 1\<rparr>) \<and>
   (\<not> n s < maxNormForPade ty \<longrightarrow>
    computeBig_loop ty msqrt A s =
      computeBig_loop ty msqrt A
        \<lparr>st_T = triangularView_Upper (msqrt (st_T s)),
         st_hasExtraSquareRoot = st_hasExtraSquareRoot s,
         st_numberOfSquareRoots = st_numberOfSquareRoots s + 1\<rparr>)"
  unfolding n_def
  by (intro conjI impI computeBig_loop_Inl computeBig_loop_Inr)
     (simp_all add: computeBig_iter_break computeBig_iter_extra computeBig_iter_far)

lemma norm_I_minus_diag3:
  "colwise_abs_sum_max (mat_sub (Identity (rows [[a, 0, 0], [0, 1, 0], [0, 0, 1 :: real]])
      (cols [[a, 0, 0], [0, 1, 0], [0, 0, 1 :: real]])) [[x, 0, 0], [0, 1, 0], [0, 0, 1]]) =
   max \<bar>1 - x\<bar> 0"
  by (simp add: mat_eval)

lemma I_minus_diag3:
  "mat_sub (Identity (rows [[a, 0, 0], [0, 1, 0], [0, 0, 1 :: real]])
      (cols [[a, 0, 0], [0, 1, 0], [0, 0, 1 :: real]])) [[x, 0, 0], [0, 1, 0], [0, 0, 1]] =
   [[1 - x, 0, 0], [0, 0, 0], [0, 0, 0]]"
  by (simp add: mat_eval)

theorem computeBig_loop_stops_at_once:
  "computeBig_loop Double (map (map sqrt)) [[1.1, 0, 0], [0, 1, 0], [0, 0, 1]]
     \<lparr>st_T = triangularView_Upper [[1.1, 0, 0], [0, 1, 0], [0, 0, 1]],
      st_hasExtraSquareRoot = False, st_numberOfSquareRoots = 0\<rparr> =
   Some \<lparr>out_degree = 5, out_IminusT = [[- 0.1, 0, 0], [0, 0, 0], [0, 0, 0]],
         out_numberOfSquareRoots = 0\<rparr>"
proof -
  let ?A = "[[1.1, 0, 0], [0, 1, 0], [0, 0, 1 :: real]]"
  let ?s = "\<lparr>st_T = ?A, st_hasExtraSquareRoot = False, st_numberOfSquareRoots = 0\<rparr>"
  have n: "colwise_abs_sum_max (mat_sub (Identity (rows ?A) (cols ?A)) (st_T ?s)) = 1 / 10"
    by (simp add: norm_I_minus_diag3)
  have h1: "colwise_abs_sum_max (mat_sub (Identity (rows ?A) (cols ?A)) (st_T ?s))
              < maxNormForPade Double"
    unfolding n by (simp add: maxNormForPade_def)
  have h2: "matrix_power_get_pade_degree Double
           (colwise_abs_sum_max (mat_sub (Identity (rows ?A) (cols ?A)) (st_T ?s))) -
         matrix_power_get_pade_degree Double
           (colwise_abs_sum_max (mat_sub (Identity (rows ?A) (cols ?A)) (st_T ?s)) / 2) \<le> 1 \<or>
         st_hasExtraSquareRoot ?s"
    unfolding n by (simp add: deg_01 deg_005)
  have "computeBig_iter Double (map (map sqrt)) ?A ?s =
     Inl \<lparr>out_degree = 5, out_IminusT = [[- 0.1, 0, 0], [0, 0, 0], [0, 0, 0]],
          out_numberOfSquareRoots = 0\<rparr>"
    unfolding computeBig_iter_break [OF h1 h2] n
    by (simp add: deg_01 I_minus_diag3)
  then show ?thesis by (simp add: triu_diag3 computeBig_loop_Inl)
qed


lemma deg_02: "matrix_power_get_pade_degree Double (1 / 5) = 7"
  by (simp add: matrix_power_get_pade_degree_def maxNormForPade_double_def pade_degree_loop.simps)

theorem computeBig_loop_pass_witness:
  "computeBig_loop Double (map (map sqrt)) [[1.1, 0, 0], [0, 1, 0], [0, 0, 1]]
     \<lparr>st_T = [[1.1, 0, 0], [0, 1, 0], [0, 0, 1]],
      st_hasExtraSquareRoot = False, st_numberOfSquareRoots = 0\<rparr> =
   Some \<lparr>out_degree = 5, out_IminusT = [[- 0.1, 0, 0], [0, 0, 0], [0, 0, 0]],
         out_numberOfSquareRoots = 0\<rparr> \<and>
   computeBig_loop Double (map (map sqrt)) [[1.2, 0, 0], [0, 1, 0], [0, 0, 1]]
     \<lparr>st_T = [[1.2, 0, 0], [0, 1, 0], [0, 0, 1]],
      st_hasExtraSquareRoot = False, st_numberOfSquareRoots = 0\<rparr> =
   computeBig_loop Double (map (map sqrt)) [[1.2, 0, 0], [0, 1, 0], [0, 0, 1]]
     \<lparr>st_T = [[sqrt 1.2, 0, 0], [0, 1, 0], [0, 0, 1]],
      st_hasExtraSquareRoot = True, st_numberOfSquareRoots = 1\<rparr> \<and>
   computeBig_loop Double (map (map sqrt)) [[1.5, 0, 0], [0, 1, 0], [0, 0, 1]]
     \<lparr>st_T = [[1.5, 0, 0], [0, 1, 0], [0, 0, 1]],
      st_hasExtraSquareRoot = False, st_numberOfSquareRoots = 0\<rparr> =
   computeBig_loop Double (map (map sqrt)) [[1.5, 0, 0], [0, 1, 0], [0, 0, 1]]
     \<lparr>st_T = [[sqrt 1.5, 0, 0], [0, 1, 0], [0, 0, 1]],
      st_hasExtraSquareRoot = False, st_numberOfSquareRoots = 1\<rparr>"
proof -
  let ?A = "[[1.1, 0, 0], [0, 1, 0], [0, 0, 1 :: real]]"
  let ?B = "[[1.2, 0, 0], [0, 1, 0], [0, 0, 1 :: real]]"
  let ?C = "[[1.5, 0, 0], [0, 1, 0], [0, 0, 1 :: real]]"
  let ?sA = "\<lparr>st_T = ?A, st_hasExtraSquareRoot = False, st_numberOfSquareRoots = 0\<rparr>"
  let ?sB = "\<lparr>st_T = ?B, st_hasExtraSquareRoot = False, st_numberOfSquareRoots = 0\<rparr>"
  let ?sC = "\<lparr>st_T = ?C, st_hasExtraSquareRoot = False, st_numberOfSquareRoots = 0\<rparr>"
  have nA: "colwise_abs_sum_max (mat_sub (Identity (rows ?A) (cols ?A)) (st_T ?sA)) = 1 / 10"
    by (simp add: norm_I_minus_diag3)
  have nB: "colwise_abs_sum_max (mat_sub (Identity (rows ?B) (cols ?B)) (st_T ?sB)) = 1 / 5"
    by (simp add: norm_I_minus_diag3)
  have nC: "colwise_abs_sum_max (mat_sub (Identity (rows ?C) (cols ?C)) (st_T ?sC)) = 1 / 2"
    by (simp add: norm_I_minus_diag3)
  have a: "computeBig_loop Double (map (map sqrt)) ?A ?sA =
      Some \<lparr>out_degree = 5, out_IminusT = [[- 0.1, 0, 0], [0, 0, 0], [0, 0, 0]],
            out_numberOfSquareRoots = 0\<rparr>"
    using computeBig_loop_pass [of ?A ?sA Double "map (map sqrt)"]
    unfolding nA by (simp add: deg_01 deg_005 maxNormForPade_def I_minus_diag3)
  have b: "computeBig_loop Double (map (map sqrt)) ?B ?sB =
      computeBig_loop Double (map (map sqrt)) ?B
        \<lparr>st_T = [[sqrt 1.2, 0, 0], [0, 1, 0], [0, 0, 1]],
         st_hasExtraSquareRoot = True, st_numberOfSquareRoots = 1\<rparr>"
    using computeBig_loop_pass [of ?B ?sB Double "map (map sqrt)"]
    unfolding nB by (simp add: deg_02 deg_01 maxNormForPade_def triu_diag3)
  have c: "computeBig_loop Double (map (map sqrt)) ?C ?sC =
      computeBig_loop Double (map (map sqrt)) ?C
        \<lparr>st_T = [[sqrt 1.5, 0, 0], [0, 1, 0], [0, 0, 1]],
         st_hasExtraSquareRoot = False, st_numberOfSquareRoots = 1\<rparr>"
    using computeBig_loop_pass [of ?C ?sC Double "map (map sqrt)"]
    unfolding nC by (simp add: maxNormForPade_def triu_diag3)
  from a b c show ?thesis by simp
qed

lemma computeBig_iter_Inl_count:
  "computeBig_iter ty msqrt A s = Inl r \<Longrightarrow>
   out_numberOfSquareRoots r = st_numberOfSquareRoots s"
  by (auto simp: computeBig_iter_def Let_def split: if_splits)

lemma computeBig_iter_Inr_state:
  "computeBig_iter ty msqrt A s = Inr s' \<Longrightarrow>
   st_T s' = triangularView_Upper (msqrt (st_T s)) \<and>
   st_numberOfSquareRoots s' = st_numberOfSquareRoots s + 1 \<and>
   (st_hasExtraSquareRoot s \<longrightarrow> st_hasExtraSquareRoot s') \<and>
   (colwise_abs_sum_max (mat_sub (Identity (rows A) (cols A)) (st_T s)) < maxNormForPade ty \<longrightarrow>
      st_hasExtraSquareRoot s')"
  by (auto simp: computeBig_iter_def Let_def split: if_splits)

lemma computeBig_loop_flag:
  fixes A :: "'a::real_normed_field matrix"
  assumes "st_hasExtraSquareRoot s"
    and "colwise_abs_sum_max (mat_sub (Identity (rows A) (cols A))
             (((\<lambda>M. triangularView_Upper (msqrt M)) ^^ K) (st_T s))) < maxNormForPade ty"
  shows "\<exists>r. computeBig_loop ty msqrt A s = Some r \<and>
             out_numberOfSquareRoots r \<le> st_numberOfSquareRoots s + K"
  using assms
proof (induction K arbitrary: s)
  case 0
  then have n0: "colwise_abs_sum_max (mat_sub (Identity (rows A) (cols A)) (st_T s))
                   < maxNormForPade ty" by simp
  from computeBig_loop_Inl [OF computeBig_iter_break [OF n0 disjI2 [OF "0.prems"(1)]]]
  show ?case by auto
next
  case (Suc K)
  obtain x where x: "computeBig_iter ty msqrt A s = x" by simp
  show ?case
  proof (cases x)
    case (Inl r)
    with x have it: "computeBig_iter ty msqrt A s = Inl r" by simp
    from computeBig_loop_Inl [OF it] computeBig_iter_Inl_count [OF it]
    show ?thesis by simp
  next
    case (Inr s')
    with x have it: "computeBig_iter ty msqrt A s = Inr s'" by simp
    note st = computeBig_iter_Inr_state [OF it]
    from st Suc.prems(1) have flag: "st_hasExtraSquareRoot s'" by simp
    from Suc.prems(2) have "colwise_abs_sum_max (mat_sub (Identity (rows A) (cols A))
             (((\<lambda>M. triangularView_Upper (msqrt M)) ^^ K)
                (triangularView_Upper (msqrt (st_T s))))) < maxNormForPade ty"
      by (simp only: funpow_Suc_right o_apply)
    with st have "colwise_abs_sum_max (mat_sub (Identity (rows A) (cols A))
             (((\<lambda>M. triangularView_Upper (msqrt M)) ^^ K) (st_T s'))) < maxNormForPade ty"
      by simp
    from Suc.IH [OF flag this] obtain r where
      "computeBig_loop ty msqrt A s' = Some r"
      "out_numberOfSquareRoots r \<le> st_numberOfSquareRoots s' + K" by blast
    with computeBig_loop_Inr [OF it] st show ?thesis by simp
  qed
qed

lemma computeBig_loop_two_passes:
  fixes A :: "'a::real_normed_field matrix"
  assumes "K1 < K2"
    and "colwise_abs_sum_max (mat_sub (Identity (rows A) (cols A))
             (((\<lambda>M. triangularView_Upper (msqrt M)) ^^ K1) (st_T s))) < maxNormForPade ty"
    and "colwise_abs_sum_max (mat_sub (Identity (rows A) (cols A))
             (((\<lambda>M. triangularView_Upper (msqrt M)) ^^ K2) (st_T s))) < maxNormForPade ty"
  shows "\<exists>r. computeBig_loop ty msqrt A s = Some r \<and>
             out_numberOfSquareRoots r \<le> st_numberOfSquareRoots s + K2"
  using assms
proof (induction K1 arbitrary: s K2)
  case 0
  then obtain K where K2: "K2 = Suc K" by (cases K2) simp_all
  obtain x where x: "computeBig_iter ty msqrt A s = x" by simp
  show ?case
  proof (cases x)
    case (Inl r)
    with x have it: "computeBig_iter ty msqrt A s = Inl r" by simp
    from computeBig_loop_Inl [OF it] computeBig_iter_Inl_count [OF it]
    show ?thesis by simp
  next
    case (Inr s')
    with x have it: "computeBig_iter ty msqrt A s = Inr s'" by simp
    note st = computeBig_iter_Inr_state [OF it]
    from "0.prems"(2) st have flag: "st_hasExtraSquareRoot s'" by simp
    from "0.prems"(3) have "colwise_abs_sum_max (mat_sub (Identity (rows A) (cols A))
             (((\<lambda>M. triangularView_Upper (msqrt M)) ^^ K)
                (triangularView_Upper (msqrt (st_T s))))) < maxNormForPade ty"
      unfolding K2 by (simp only: funpow_Suc_right o_apply)
    with st have "colwise_abs_sum_max (mat_sub (Identity (rows A) (cols A))
             (((\<lambda>M. triangularView_Upper (msqrt M)) ^^ K) (st_T s'))) < maxNormForPade ty"
      by simp
    from computeBig_loop_flag [OF flag this] obtain r where
      "computeBig_loop ty msqrt A s' = Some r"
      "out_numberOfSquareRoots r \<le> st_numberOfSquareRoots s' + K" by blast
    with computeBig_loop_Inr [OF it] st K2 show ?thesis by simp
  qed
next
  case (Suc K1)
  then obtain K where K2: "K2 = Suc K" and K: "K1 < K" by (cases K2) simp_all
  obtain x where x: "computeBig_iter ty msqrt A s = x" by simp
  show ?case
  proof (cases x)
    case (Inl r)
    with x have it: "computeBig_iter ty msqrt A s = Inl r" by simp
    from computeBig_loop_Inl [OF it] computeBig_iter_Inl_count [OF it]
    show ?thesis by simp
  next
    case (Inr s')
    with x have it: "computeBig_iter ty msqrt A s = Inr s'" by simp
    note st = computeBig_iter_Inr_state [OF it]
    from Suc.prems(2) have "colwise_abs_sum_max (mat_sub (Identity (rows A) (cols A))
             (((\<lambda>M. triangularView_Upper (msqrt M)) ^^ K1)
                (triangularView_Upper (msqrt (st_T s))))) < maxNormForPade ty"
      by (simp only: funpow_Suc_right o_apply)
    with st have n1: "colwise_abs_sum_max (mat_sub (Identity (rows A) (cols A))
             (((\<lambda>M. triangularView_Upper (msqrt M)) ^^ K1) (st_T s'))) < maxNormForPade ty"
      by simp
    from Suc.prems(3) have "colwise_abs_sum_max (mat_sub (Identity (rows A) (cols A))
             (((\<lambda>M. triangularView_Upper (msqrt M)) ^^ K)
                (triangularView_Upper (msqrt (st_T s))))) < maxNormForPade ty"
      unfolding K2 by (simp only: funpow_Suc_right o_apply)
    with st have n2: "colwise_abs_sum_max (mat_sub (Identity (rows A) (cols A))
             (((\<lambda>M. triangularView_Upper (msqrt M)) ^^ K) (st_T s'))) < maxNormForPade ty"
      by simp
    from Suc.IH [OF K n1 n2] obtain r where
      "computeBig_loop ty msqrt A s' = Some r"
      "out_numberOfSquareRoots r \<le> st_numberOfSquareRoots s' + K" by blast
    with computeBig_loop_Inr [OF it] st K2 show ?thesis by simp
  qed
qed

lemma computeBig_loop_fixpoint:
  fixes A :: "'a::real_normed_field matrix"
  assumes far: "\<not> colwise_abs_sum_max (mat_sub (Identity (rows A) (cols A)) (st_T s))
                  < maxNormForPade ty"
    and fp: "triangularView_Upper (msqrt (st_T s)) = st_T s"
  shows "computeBig_loop ty msqrt A s = None"
proof (rule ccontr)
  assume "computeBig_loop ty msqrt A s \<noteq> None"
  then obtain r where r: "computeBig_loop ty msqrt A s = Some r" by auto
  have "ty = ty \<and> msqrt = msqrt \<and> A = A \<longrightarrow> st_T s \<noteq> st_T s"
  proof (rule computeBig_loop.raw_induct
      [where P = "\<lambda>ty' msqrt' A' s' r'. ty' = ty \<and> msqrt' = msqrt \<and> A' = A \<longrightarrow> st_T s' \<noteq> st_T s",
       OF _ r])
    fix loop :: "real_scalar_type \<Rightarrow> ('a matrix \<Rightarrow> 'a matrix) \<Rightarrow> 'a matrix \<Rightarrow> 'a scaling_state
                 \<Rightarrow> 'a scaling_result option"
      and ty' msqrt' and A' :: "'a matrix" and s' r'
    assume IH: "\<And>ty'' msqrt'' A'' s'' y. loop ty'' msqrt'' A'' s'' = Some y \<Longrightarrow>
                  ty'' = ty \<and> msqrt'' = msqrt \<and> A'' = A \<longrightarrow> st_T s'' \<noteq> st_T s"
      and step: "(case computeBig_iter ty' msqrt' A' s' of Inl r \<Rightarrow> Some r
                  | Inr s'' \<Rightarrow> loop ty' msqrt' A' s'') = Some r'"
    show "ty' = ty \<and> msqrt' = msqrt \<and> A' = A \<longrightarrow> st_T s' \<noteq> st_T s"
    proof (intro impI notI)
      assume same: "ty' = ty \<and> msqrt' = msqrt \<and> A' = A" and eq: "st_T s' = st_T s"
      from far eq have "\<not> colwise_abs_sum_max (mat_sub (Identity (rows A) (cols A)) (st_T s'))
                  < maxNormForPade ty" by simp
      from computeBig_iter_far [OF this, of msqrt] same step
      have "loop ty msqrt A
           \<lparr>st_T = triangularView_Upper (msqrt (st_T s')),
            st_hasExtraSquareRoot = st_hasExtraSquareRoot s',
            st_numberOfSquareRoots = st_numberOfSquareRoots s' + 1\<rparr> = Some r'"
        by simp
      from IH [OF this] eq fp show False by simp
    qed
  qed
  then show False by simp
qed

lemma computeBig_loop_never_below:
  fixes A :: "'a::real_normed_field matrix"
  assumes far: "\<forall>k. \<not> colwise_abs_sum_max (mat_sub (Identity (rows A) (cols A))
                  (((\<lambda>M. triangularView_Upper (msqrt M)) ^^ k) (st_T s))) < maxNormForPade ty"
  shows "computeBig_loop ty msqrt A s = None"
proof (rule ccontr)
  let ?f = "\<lambda>M. triangularView_Upper (msqrt M)"
  assume "computeBig_loop ty msqrt A s \<noteq> None"
  then obtain r where r: "computeBig_loop ty msqrt A s = Some r" by auto
  have "ty = ty \<and> msqrt = msqrt \<and> A = A \<longrightarrow> (\<forall>k. st_T s \<noteq> (?f ^^ k) (st_T s))"
  proof (rule computeBig_loop.raw_induct
      [where P = "\<lambda>ty' msqrt' A' s' r'. ty' = ty \<and> msqrt' = msqrt \<and> A' = A \<longrightarrow>
                    (\<forall>k. st_T s' \<noteq> (?f ^^ k) (st_T s))",
       OF _ r])
    fix loop :: "real_scalar_type \<Rightarrow> ('a matrix \<Rightarrow> 'a matrix) \<Rightarrow> 'a matrix \<Rightarrow> 'a scaling_state
                 \<Rightarrow> 'a scaling_result option"
      and ty' msqrt' and A' :: "'a matrix" and s' r'
    assume IH: "\<And>ty'' msqrt'' A'' s'' y. loop ty'' msqrt'' A'' s'' = Some y \<Longrightarrow>
                  ty'' = ty \<and> msqrt'' = msqrt \<and> A'' = A \<longrightarrow>
                  (\<forall>k. st_T s'' \<noteq> (?f ^^ k) (st_T s))"
      and step: "(case computeBig_iter ty' msqrt' A' s' of Inl r \<Rightarrow> Some r
                  | Inr s'' \<Rightarrow> loop ty' msqrt' A' s'') = Some r'"
    show "ty' = ty \<and> msqrt' = msqrt \<and> A' = A \<longrightarrow> (\<forall>k. st_T s' \<noteq> (?f ^^ k) (st_T s))"
    proof (intro impI allI notI)
      fix k
      assume same: "ty' = ty \<and> msqrt' = msqrt \<and> A' = A" and eq: "st_T s' = (?f ^^ k) (st_T s)"
      from far eq have "\<not> colwise_abs_sum_max (mat_sub (Identity (rows A) (cols A)) (st_T s'))
                  < maxNormForPade ty" by simp
      from computeBig_iter_far [OF this, of msqrt] same step
      have "loop ty msqrt A
           \<lparr>st_T = triangularView_Upper (msqrt (st_T s')),
            st_hasExtraSquareRoot = st_hasExtraSquareRoot s',
            st_numberOfSquareRoots = st_numberOfSquareRoots s' + 1\<rparr> = Some r'"
        by simp
      from IH [OF this]
      have all: "\<forall>j. triangularView_Upper (msqrt (st_T s')) \<noteq> (?f ^^ j) (st_T s)"
        by simp
      have "triangularView_Upper (msqrt (st_T s')) \<noteq> (?f ^^ Suc k) (st_T s)"
        by (rule spec [OF all])
      with eq show False by simp
    qed
  qed
  then have "st_T s \<noteq> (?f ^^ 0) (st_T s)" by blast
  then show False by simp
qed

subsection \<open>Convergence of repeated square roots\<close>

lemma funpow_sqrt_powr: "0 < a \<Longrightarrow> (sqrt ^^ k) a = a powr ((1 / 2) ^ k)"
proof (induction k)
  case 0
  then show ?case by simp
next
  case (Suc k)
  have "sqrt (a powr ((1 / 2) ^ k)) = (a powr ((1 / 2) ^ k)) powr (1 / 2)"
    by (simp add: powr_half_sqrt)
  also have "\<dots> = a powr ((1 / 2) ^ Suc k)"
    by (simp add: powr_powr)
  finally show ?case using Suc by simp
qed

lemma funpow_sqrt_tendsto_1:
  assumes "0 < a"
  shows "(\<lambda>k. (sqrt ^^ k) a) \<longlonglongrightarrow> 1"
proof -
  have "(\<lambda>k. (1 / 2 :: real) ^ k) \<longlonglongrightarrow> 0"
    by (rule LIMSEQ_realpow_zero) simp_all
  moreover have "(\<lambda>k. a) \<longlonglongrightarrow> a" by simp
  ultimately have "(\<lambda>k. a powr ((1 / 2) ^ k)) \<longlonglongrightarrow> a powr 0"
    using assms by (intro tendsto_powr) simp_all
  then show ?thesis using assms by (simp add: funpow_sqrt_powr)
qed

lemma contraction_tendsto_0:
  fixes x e :: "nat \<Rightarrow> real"
  assumes step: "\<forall>k\<ge>N. \<bar>x (Suc k)\<bar> \<le> q * \<bar>x k\<bar> + e k"
    and q: "0 \<le> q" "q < 1"
    and e: "e \<longlonglongrightarrow> 0"
  shows "x \<longlonglongrightarrow> 0"
proof (rule LIMSEQ_I)
  fix r :: real
  assume r: "0 < r"
  define d where "d = r * (1 - q) / 2"
  have d: "0 < d" using r q by (simp add: d_def)
  from LIMSEQ_D [OF e d] obtain N0 where N0: "\<forall>k\<ge>N0. \<bar>e k\<bar> < d" by auto
  define N1 where "N1 = max N N0"
  have stepd: "\<bar>x (Suc k)\<bar> \<le> q * \<bar>x k\<bar> + d" if "N1 \<le> k" for k
  proof -
    from that have "N \<le> k" "N0 \<le> k" by (simp_all add: N1_def)
    with step N0 have "\<bar>x (Suc k)\<bar> \<le> q * \<bar>x k\<bar> + e k" "\<bar>e k\<bar> < d" by simp_all
    then show ?thesis by linarith
  qed
  have bound: "\<bar>x (N1 + m)\<bar> \<le> q ^ m * \<bar>x N1\<bar> + r / 2" for m
  proof (induction m)
    case 0
    then show ?case using r by simp
  next
    case (Suc m)
    have "\<bar>x (N1 + Suc m)\<bar> \<le> q * \<bar>x (N1 + m)\<bar> + d"
      using stepd [of "N1 + m"] by simp
    also have "\<dots> \<le> q * (q ^ m * \<bar>x N1\<bar> + r / 2) + d"
      using Suc q(1) by (simp add: mult_left_mono)
    also have "\<dots> = q ^ Suc m * \<bar>x N1\<bar> + r / 2"
      by (simp add: d_def field_simps)
    finally show ?case .
  qed
  have "(\<lambda>m. q ^ m * \<bar>x N1\<bar>) \<longlonglongrightarrow> 0 * \<bar>x N1\<bar>"
    by (intro tendsto_mult LIMSEQ_realpow_zero q) simp
  then have "(\<lambda>m. q ^ m * \<bar>x N1\<bar>) \<longlonglongrightarrow> 0" by simp
  from LIMSEQ_D [OF this, of "r / 2"] r obtain M where
    M: "\<forall>m\<ge>M. \<bar>q ^ m * \<bar>x N1\<bar>\<bar> < r / 2" by auto
  have "\<forall>n\<ge>N1 + M. norm (x n - 0) < r"
  proof (intro allI impI)
    fix n assume "N1 + M \<le> n"
    then obtain k where "n = N1 + M + k" by (auto simp: le_iff_add)
    then have "n = N1 + (M + k)" and "M \<le> M + k" by simp_all
    then obtain m where n: "n = N1 + m" and m: "M \<le> m" by blast
    from M m have "q ^ m * \<bar>x N1\<bar> < r / 2" by auto
    with bound [of m] show "norm (x n - 0) < r" by (simp add: n)
  qed
  then show "\<exists>no. \<forall>n\<ge>no. norm (x n - 0) < r" by blast
qed

lemma norm_funpow_csqrt: "norm ((csqrt ^^ k) z) = (sqrt ^^ k) (norm z)"
  by (induction k) (simp_all del: csqrt.simps)

lemma csqrt_Re_ge_half_norm:
  assumes "0 \<le> Re z"
  shows "norm (csqrt z) \<le> 2 * Re (csqrt z)"
proof -
  define w where "w = csqrt z"
  have w2: "w\<^sup>2 = z" by (simp add: w_def del: csqrt.simps)
  have "Re (w\<^sup>2) = (Re w)\<^sup>2 - (Im w)\<^sup>2" by (rule Re_power2)
  with assms w2 have le: "(Im w)\<^sup>2 \<le> (Re w)\<^sup>2" by simp
  have "(norm w)\<^sup>2 = (Re w)\<^sup>2 + (Im w)\<^sup>2" by (rule cmod_power2)
  also have "\<dots> \<le> 4 * (Re w)\<^sup>2" using le zero_le_power2 [of "Re w"] by linarith
  also have "\<dots> = (2 * Re w)\<^sup>2" by (simp add: power_mult_distrib)
  finally have "(norm w)\<^sup>2 \<le> (2 * Re w)\<^sup>2" .
  moreover have "0 \<le> 2 * Re w" using Re_csqrt [of z] by (simp add: w_def del: csqrt.simps)
  ultimately have "norm w \<le> 2 * Re w" by (rule power2_le_imp_le)
  then show ?thesis by (simp only: w_def)
qed

lemma funpow_csqrt_tendsto_1:
  assumes "z \<noteq> 0"
  shows "(\<lambda>k. (csqrt ^^ k) z) \<longlonglongrightarrow> 1"
proof -
  define w where "w = (\<lambda>k. (csqrt ^^ k) z)"
  have wS: "w (Suc k) = csqrt (w k)" for k by (simp add: w_def del: csqrt.simps)
  have "(\<lambda>k. (sqrt ^^ k) (norm z)) \<longlonglongrightarrow> 1"
    using assms by (intro funpow_sqrt_tendsto_1) simp
  then have nw: "(\<lambda>k. norm (w k)) \<longlonglongrightarrow> 1"
    by (simp add: norm_funpow_csqrt w_def del: csqrt.simps)
  from LIMSEQ_D [OF nw, of "1 / 2"] obtain N where N: "\<forall>k\<ge>N. \<bar>norm (w k) - 1\<bar> < 1 / 2"
    by auto
  have step: "\<forall>k\<ge>Suc N. \<bar>norm (w (Suc k) - 1)\<bar> \<le> (4 / 5) * \<bar>norm (w k - 1)\<bar> + 0"
  proof (intro allI impI)
    fix k assume k: "Suc N \<le> k"
    then obtain j where j: "k = Suc j" by (cases k) simp_all
    have sq: "(w (Suc k))\<^sup>2 = w k" unfolding wS by (rule power2_csqrt)
    have "0 \<le> Re (w k)" unfolding j wS by (rule Re_csqrt)
    then have h: "norm (w (Suc k)) \<le> 2 * Re (w (Suc k))"
      unfolding wS by (rule csqrt_Re_ge_half_norm)
    from N k have "\<bar>norm (w (Suc k)) - 1\<bar> < 1 / 2" by simp
    with h have "1 / 4 \<le> Re (w (Suc k))" by linarith
    then have "5 / 4 \<le> Re (w (Suc k) + 1)" by simp
    also have "\<dots> \<le> norm (w (Suc k) + 1)" by (rule complex_Re_le_cmod)
    finally have c: "5 / 4 \<le> norm (w (Suc k) + 1)" .
    have "(w (Suc k) - 1) * (w (Suc k) + 1) = (w (Suc k))\<^sup>2 - 1"
      by (simp add: algebra_simps power2_eq_square)
    also have "\<dots> = w k - 1" by (simp only: sq)
    finally have "norm ((w (Suc k) - 1) * (w (Suc k) + 1)) = norm (w k - 1)" by simp
    then have m: "norm (w (Suc k) - 1) * norm (w (Suc k) + 1) = norm (w k - 1)"
      by (simp only: norm_mult)
    have "norm (w (Suc k) - 1) * (5 / 4) \<le> norm (w (Suc k) - 1) * norm (w (Suc k) + 1)"
      using c by (intro mult_left_mono) simp_all
    with m have "norm (w (Suc k) - 1) * (5 / 4) \<le> norm (w k - 1)" by simp
    then show "\<bar>norm (w (Suc k) - 1)\<bar> \<le> (4 / 5) * \<bar>norm (w k - 1)\<bar> + 0" by simp
  qed
  have "(\<lambda>k. norm (w k - 1)) \<longlonglongrightarrow> 0"
    by (rule contraction_tendsto_0 [OF step]) simp_all
  then have "(\<lambda>k. w k - 1) \<longlonglongrightarrow> 0" by (simp only: tendsto_norm_zero_iff)
  then have "w \<longlonglongrightarrow> 1" by (simp only: LIM_zero_iff)
  then show ?thesis by (simp only: w_def)
qed

lemma upper_triangular_iff:
  "upper_triangular n M = (has_dims M n n \<and> (\<forall>i<n. \<forall>j<i. coeff M i j = 0))"
  by (auto simp: upper_triangular_def list_all_iff)

lemma diagonal_all_iff: "diagonal_all ok n M = (\<forall>i<n. ok (coeff M i i))"
  by (auto simp: diagonal_all_def list_all_iff)

lemma has_dims_map_upt:
  "has_dims (map (\<lambda>i. map (g i) [0..<c]) [0..<r]) r c"
  by (simp add: has_dims_def list_all_iff)

lemma coeff_map_upt:
  "i < r \<Longrightarrow> j < c \<Longrightarrow> coeff (map (\<lambda>i. map (g i) [0..<c]) [0..<r]) i j = g i j"
  by (simp add: coeff_def)

lemma matrix_eqI:
  assumes "has_dims A n m" and "has_dims B n m"
    and "\<And>i j. i < n \<Longrightarrow> j < m \<Longrightarrow> coeff A i j = coeff B i j"
  shows "A = B"
proof (rule nth_equalityI)
  show "length A = length B" using assms(1,2) by (simp add: has_dims_def)
next
  fix i assume i: "i < length A"
  then have in': "i < n" using assms(1) by (simp add: has_dims_def)
  show "A ! i = B ! i"
  proof (rule nth_equalityI)
    show "length (A ! i) = length (B ! i)"
      using has_dims_row [OF assms(1) in'] has_dims_row [OF assms(2) in'] by simp
  next
    fix j assume "j < length (A ! i)"
    then have "j < m" using has_dims_row [OF assms(1) in'] by simp
    from assms(3) [OF in' this] show "A ! i ! j = B ! i ! j" by (simp add: coeff_def)
  qed
qed

lemma has_dims_triu: "has_dims M n n \<Longrightarrow> has_dims (triangularView_Upper M) n n"
  unfolding triangularView_Upper_def
  by (simp add: cols_has_dims rows_has_dims has_dims_map_upt)

lemma coeff_triu:
  "has_dims M n n \<Longrightarrow> i < n \<Longrightarrow> j < n \<Longrightarrow>
   coeff (triangularView_Upper M) i j = (if i \<le> j then coeff M i j else 0)"
  unfolding triangularView_Upper_def
  by (simp add: cols_has_dims rows_has_dims coeff_map_upt)

lemma upper_triangular_triu: "has_dims M n n \<Longrightarrow> upper_triangular n (triangularView_Upper M)"
  by (simp add: upper_triangular_iff has_dims_triu coeff_triu)

lemma triu_upper_triangular: "upper_triangular n M \<Longrightarrow> triangularView_Upper M = M"
proof -
  assume u: "upper_triangular n M"
  then have d: "has_dims M n n" by (simp add: upper_triangular_iff)
  show ?thesis
  proof (rule matrix_eqI [OF has_dims_triu [OF d] d])
    fix i j assume "i < n" "j < n"
    with u d show "coeff (triangularView_Upper M) i j = coeff M i j"
      by (auto simp: coeff_triu upper_triangular_iff)
  qed
qed

lemma has_dims_Identity: "has_dims (Identity r c :: 'a::real_normed_field matrix) r c"
  unfolding Identity_def by (rule has_dims_map_upt)

lemma coeff_Identity:
  "i < r \<Longrightarrow> j < c \<Longrightarrow> coeff (Identity r c :: 'a::real_normed_field matrix) i j = (if i = j then 1 else 0)"
  unfolding Identity_def by (simp add: coeff_map_upt)

lemma coeff_mat_sub:
  "has_dims A r c \<Longrightarrow> has_dims B r c \<Longrightarrow> i < r \<Longrightarrow> j < c \<Longrightarrow>
   coeff (mat_sub A B) i j = coeff A i j - coeff B i j"
  using has_dims_row [of A r c i] has_dims_row [of B r c i]
  by (simp add: mat_sub_def coeff_def has_dims_def)

lemma has_dims_mat_sub:
  "has_dims A r c \<Longrightarrow> has_dims B r c \<Longrightarrow> has_dims (mat_sub A B) r c"
  by (auto simp: mat_sub_def has_dims_def list_all_length)

lemma coeff_mat_mul:
  "has_dims R n n \<Longrightarrow> i < n \<Longrightarrow> j < n \<Longrightarrow>
   coeff (mat_mul R R) i j = (\<Sum>l = 0..<n. coeff R i l * coeff R l j)"
  unfolding mat_mul_def
  by (simp add: cols_has_dims rows_has_dims coeff_map_upt interv_sum_list_conv_sum_set_nat)

lemma fold_max_less:
  fixes x :: real
  shows "fold max xs x < e \<longleftrightarrow> x < e \<and> (\<forall>y\<in>set xs. y < e)"
  by (induction xs arbitrary: x) auto

lemma maxCoeff_less: "0 < e \<Longrightarrow> (\<forall>y\<in>set xs. y < e) \<Longrightarrow> maxCoeff xs < e"
  by (cases xs) (simp_all add: fold_max_less)

lemma colwise_abs_sum_max_less:
  fixes M :: "'a::real_normed_field matrix"
  assumes "has_dims M n n" and "0 < e"
    and "\<And>j. j < n \<Longrightarrow> (\<Sum>i = 0..<n. abs_s (coeff M i j)) < e"
  shows "colwise_abs_sum_max M < e"
  unfolding colwise_abs_sum_max_def
  using assms
  by (intro maxCoeff_less)
     (auto simp: cols_has_dims rows_has_dims interv_sum_list_conv_sum_set_nat)

lemma square_rooted_0: "square_rooted msqrt A 0 = triangularView_Upper A"
  by (simp add: square_rooted_def)

lemma square_rooted_Suc:
  "square_rooted msqrt A (Suc k) = triangularView_Upper (msqrt (square_rooted msqrt A k))"
  by (simp add: square_rooted_def)

lemma square_rooted_invariant:
  assumes S1: "\<And>x. ok x \<Longrightarrow> ok (ssqrt x)"
    and H: "\<forall>M. upper_triangular n M \<and> diagonal_all ok n M \<longrightarrow>
                principal_sqrt_of ssqrt n (msqrt M) M"
    and d: "has_dims A n n" and p: "diagonal_all ok n A"
  shows "upper_triangular n (square_rooted msqrt A k) \<and>
         diagonal_all ok n (square_rooted msqrt A k) \<and>
         (\<forall>i<n. coeff (square_rooted msqrt A k) i i = (ssqrt ^^ k) (coeff A i i))"
proof (induction k)
  case 0
  from d p show ?case
    by (simp add: square_rooted_0 upper_triangular_triu diagonal_all_iff coeff_triu)
next
  case (Suc k)
  let ?W = "square_rooted msqrt A k"
  from Suc H have R: "principal_sqrt_of ssqrt n (msqrt ?W) ?W" by blast
  then have u: "upper_triangular n (msqrt ?W)" by (simp add: principal_sqrt_of_def)
  then have eq: "square_rooted msqrt A (Suc k) = msqrt ?W"
    by (simp add: square_rooted_Suc triu_upper_triangular)
  from R have diag: "\<forall>i<n. coeff (msqrt ?W) i i = ssqrt (coeff ?W i i)"
    by (simp add: principal_sqrt_of_def list_all_iff)
  with Suc have "\<forall>i<n. coeff (msqrt ?W) i i = (ssqrt ^^ Suc k) (coeff A i i)" by simp
  moreover have "diagonal_all ok n (msqrt ?W)"
    unfolding diagonal_all_iff
  proof (intro allI impI)
    fix i assume i: "i < n"
    from Suc have "diagonal_all ok n ?W" by blast
    with i have "ok (coeff ?W i i)" by (simp add: diagonal_all_iff)
    then have "ok (ssqrt (coeff ?W i i))" by (rule S1)
    with diag i show "ok (coeff (msqrt ?W) i i)" by simp
  qed
  ultimately show ?case using u by (simp add: eq)
qed

lemma square_rooted_square:
  assumes S1: "\<And>x. ok x \<Longrightarrow> ok (ssqrt x)"
    and H: "\<forall>M. upper_triangular n M \<and> diagonal_all ok n M \<longrightarrow>
                principal_sqrt_of ssqrt n (msqrt M) M"
    and d: "has_dims A n n" and p: "diagonal_all ok n A"
  shows "mat_mul (square_rooted msqrt A (Suc k)) (square_rooted msqrt A (Suc k)) =
         square_rooted msqrt A k"
proof -
  let ?W = "square_rooted msqrt A k"
  from square_rooted_invariant [of ok ssqrt, OF S1 H d p, of k] H
  have R: "principal_sqrt_of ssqrt n (msqrt ?W) ?W" by blast
  then have "upper_triangular n (msqrt ?W)" by (simp add: principal_sqrt_of_def)
  then have "square_rooted msqrt A (Suc k) = msqrt ?W"
    by (simp add: square_rooted_Suc triu_upper_triangular)
  with R show ?thesis by (simp add: principal_sqrt_of_def)
qed

lemma upper_triangular_square_entry:
  fixes R :: "'a::real_normed_field matrix"
  assumes u: "upper_triangular n R" and ij: "i < j" "j < n"
  shows "coeff (mat_mul R R) i j =
     (coeff R i i + coeff R j j) * coeff R i j + (\<Sum>l\<in>{i<..<j}. coeff R i l * coeff R l j)"
proof -
  from u have d: "has_dims R n n" and z: "\<And>a b. a < n \<Longrightarrow> b < a \<Longrightarrow> coeff R a b = 0"
    by (simp_all add: upper_triangular_iff)
  from ij have i: "i < n" by simp
  have "coeff (mat_mul R R) i j = (\<Sum>l = 0..<n. coeff R i l * coeff R l j)"
    using d i ij(2) by (rule coeff_mat_mul)
  also have "\<dots> = (\<Sum>l\<in>{i..j}. coeff R i l * coeff R l j)"
  proof (rule sum.mono_neutral_right)
    show "finite {0..<n}" by simp
    show "{i..j} \<subseteq> {0..<n}" using ij by auto
    show "\<forall>l\<in>{0..<n} - {i..j}. coeff R i l * coeff R l j = 0"
    proof
      fix l assume l: "l \<in> {0..<n} - {i..j}"
      then have "l < i \<or> j < l" by auto
      then show "coeff R i l * coeff R l j = 0"
      proof
        assume "l < i"
        with z [OF i] show ?thesis by simp
      next
        assume "j < l"
        moreover from l have "l < n" by simp
        ultimately show ?thesis using z [of l j] by simp
      qed
    qed
  qed
  also have "{i..j} = insert i (insert j {i<..<j})" using ij by auto
  also have "(\<Sum>l\<in>insert i (insert j {i<..<j}). coeff R i l * coeff R l j) =
     coeff R i i * coeff R i j + (coeff R i j * coeff R j j +
       (\<Sum>l\<in>{i<..<j}. coeff R i l * coeff R l j))"
    using ij by simp
  finally show ?thesis by (simp add: algebra_simps)
qed

lemma square_rooted_diag_tendsto:
  assumes S1: "\<And>x. ok x \<Longrightarrow> ok (ssqrt x)"
    and S2: "\<And>x. ok x \<Longrightarrow> (\<lambda>k. (ssqrt ^^ k) x) \<longlonglongrightarrow> 1"
    and H: "\<forall>M. upper_triangular n M \<and> diagonal_all ok n M \<longrightarrow>
                principal_sqrt_of ssqrt n (msqrt M) M"
    and d: "has_dims A n n" and p: "diagonal_all ok n A" and i: "i < n"
  shows "(\<lambda>k. coeff (square_rooted msqrt A k) i i) \<longlonglongrightarrow> 1"
proof -
  from p i have "ok (coeff A i i)" by (simp add: diagonal_all_iff)
  then have "(\<lambda>k. (ssqrt ^^ k) (coeff A i i)) \<longlonglongrightarrow> 1" by (rule S2)
  moreover have "coeff (square_rooted msqrt A k) i i = (ssqrt ^^ k) (coeff A i i)" for k
    using square_rooted_invariant [of ok ssqrt, OF S1 H d p, of k] i by simp
  ultimately show ?thesis by simp
qed

lemma square_rooted_offdiag_tendsto:
  fixes A :: "'a::real_normed_field matrix"
  assumes S1: "\<And>x. ok x \<Longrightarrow> ok (ssqrt x)"
    and S2: "\<And>x. ok x \<Longrightarrow> (\<lambda>k. (ssqrt ^^ k) x) \<longlonglongrightarrow> 1"
    and H: "\<forall>M. upper_triangular n M \<and> diagonal_all ok n M \<longrightarrow>
                principal_sqrt_of ssqrt n (msqrt M) M"
    and d: "has_dims A n n" and p: "diagonal_all ok n A"
  shows "i < j \<Longrightarrow> j < n \<Longrightarrow> (\<lambda>k. coeff (square_rooted msqrt A k) i j) \<longlonglongrightarrow> 0"
proof (induction "j - i" arbitrary: i j rule: less_induct)
  case less
  let ?W = "square_rooted msqrt A"
  let ?x = "\<lambda>k. coeff (?W k) i j"
  let ?S = "\<lambda>k. \<Sum>l\<in>{i<..<j}. coeff (?W k) i l * coeff (?W k) l j"
  let ?D = "\<lambda>k. coeff (?W k) i i + coeff (?W k) j j"
  from less.prems have i: "i < n" by simp
  have S: "?S \<longlonglongrightarrow> 0"
  proof -
    have "(\<lambda>k. coeff (?W k) i l * coeff (?W k) l j) \<longlonglongrightarrow> 0 * 0" if "l \<in> {i<..<j}" for l
    proof (rule tendsto_mult)
      from that less.prems show "(\<lambda>k. coeff (?W k) i l) \<longlonglongrightarrow> 0"
        by (intro less.hyps) auto
      from that less.prems show "(\<lambda>k. coeff (?W k) l j) \<longlonglongrightarrow> 0"
        by (intro less.hyps) auto
    qed
    then have "?S \<longlonglongrightarrow> (\<Sum>l\<in>{i<..<j}. 0 * 0)" by (rule tendsto_sum)
    then show ?thesis by simp
  qed
  have Di: "(\<lambda>k. coeff (?W k) i i) \<longlonglongrightarrow> 1"
    using S1 S2 H d p i by (rule square_rooted_diag_tendsto [of ok ssqrt])
  have Dj: "(\<lambda>k. coeff (?W k) j j) \<longlonglongrightarrow> 1"
    using S1 S2 H d p less.prems(2) by (rule square_rooted_diag_tendsto [of ok ssqrt])
  have D: "?D \<longlonglongrightarrow> 1 + 1" using Di Dj by (rule tendsto_add)
  have rec: "?x k = ?D (Suc k) * ?x (Suc k) + ?S (Suc k)" for k
  proof -
    from square_rooted_invariant [of ok ssqrt, OF S1 H d p, of "Suc k"]
    have "upper_triangular n (?W (Suc k))" by simp
    from upper_triangular_square_entry [OF this less.prems]
    show ?thesis by (simp add: square_rooted_square [of ok ssqrt, OF S1 H d p])
  qed
  from LIMSEQ_D [OF D, of "1 / 2"] obtain N where
    N: "\<forall>k\<ge>N. norm (?D k - (1 + 1)) < 1 / 2" by auto
  have step: "\<forall>k\<ge>N. \<bar>norm (?x (Suc k))\<bar> \<le> (2 / 3) * \<bar>norm (?x k)\<bar> + (2 / 3) * norm (?S (Suc k))"
  proof (intro allI impI)
    fix k assume "N \<le> k"
    then have "N \<le> Suc k" by simp
    with N have close: "norm (?D (Suc k) - (1 + 1)) < 1 / 2" by blast
    have "norm (1 + 1 :: 'a) \<le> norm (?D (Suc k)) + norm (?D (Suc k) - (1 + 1))"
      using norm_triangle_ineq4 [of "?D (Suc k)" "?D (Suc k) - (1 + 1)"] by simp
    moreover have "norm (1 + 1 :: 'a) = 2"
      using norm_of_real [of 2, where 'a = 'a] by simp
    ultimately have D32: "3 / 2 < norm (?D (Suc k))" using close by linarith
    have "norm (?D (Suc k)) * norm (?x (Suc k)) = norm (?D (Suc k) * ?x (Suc k))"
      by (simp add: norm_mult)
    also have "\<dots> = norm (?x k - ?S (Suc k))" using rec [of k] by simp
    also have "\<dots> \<le> norm (?x k) + norm (?S (Suc k))" by (rule norm_triangle_ineq4)
    finally have le: "norm (?D (Suc k)) * norm (?x (Suc k)) \<le> norm (?x k) + norm (?S (Suc k))" .
    have "(3 / 2) * norm (?x (Suc k)) \<le> norm (?D (Suc k)) * norm (?x (Suc k))"
      using D32 by (intro mult_right_mono) simp_all
    with le show "\<bar>norm (?x (Suc k))\<bar> \<le> (2 / 3) * \<bar>norm (?x k)\<bar> + (2 / 3) * norm (?S (Suc k))"
      by simp
  qed
  have "(\<lambda>k. norm (?S (Suc k))) \<longlonglongrightarrow> 0"
    using LIMSEQ_Suc [OF S] by (simp add: tendsto_norm_zero_iff)
  then have "(\<lambda>k. (2 / 3) * norm (?S (Suc k))) \<longlonglongrightarrow> (2 / 3) * 0"
    by (intro tendsto_mult tendsto_const)
  then have e0: "(\<lambda>k. (2 / 3) * norm (?S (Suc k))) \<longlonglongrightarrow> 0" by simp
  have "(\<lambda>k. norm (?x k)) \<longlonglongrightarrow> 0"
    by (rule contraction_tendsto_0 [OF step _ _ e0]) simp_all
  then show ?case by (simp add: tendsto_norm_zero_iff)
qed

lemma square_rooted_entry_tendsto:
  fixes A :: "'a::real_normed_field matrix"
  assumes S1: "\<And>x. ok x \<Longrightarrow> ok (ssqrt x)"
    and S2: "\<And>x. ok x \<Longrightarrow> (\<lambda>k. (ssqrt ^^ k) x) \<longlonglongrightarrow> 1"
    and H: "\<forall>M. upper_triangular n M \<and> diagonal_all ok n M \<longrightarrow>
                principal_sqrt_of ssqrt n (msqrt M) M"
    and d: "has_dims A n n" and p: "diagonal_all ok n A"
    and i: "i < n" and j: "j < n"
  shows "(\<lambda>k. abs_s (coeff (mat_sub (Identity n n) (square_rooted msqrt A k)) i j)) \<longlonglongrightarrow> 0"
proof -
  let ?W = "square_rooted msqrt A"
  have u: "upper_triangular n (?W k)" for k
    using square_rooted_invariant [of ok ssqrt, OF S1 H d p, of k] by simp
  then have dW: "has_dims (?W k) n n" for k by (simp add: upper_triangular_iff)
  have c: "coeff (mat_sub (Identity n n) (?W k)) i j = (if i = j then 1 else 0) - coeff (?W k) i j"
    for k
    using coeff_mat_sub [OF has_dims_Identity dW i j] i j by (simp add: coeff_Identity)
  have "(\<lambda>k. (if i = j then 1 else 0) - coeff (?W k) i j) \<longlonglongrightarrow> 0"
  proof (cases "i = j")
    case True
    have "(\<lambda>k. coeff (?W k) i i) \<longlonglongrightarrow> 1"
      using S1 S2 H d p i by (rule square_rooted_diag_tendsto [of ok ssqrt])
    then have "(\<lambda>k. 1 - coeff (?W k) i i) \<longlonglongrightarrow> 1 - 1"
      by (intro tendsto_diff tendsto_const)
    with True show ?thesis by simp
  next
    case False
    show ?thesis
    proof (cases "i < j")
      case True
      have "(\<lambda>k. coeff (?W k) i j) \<longlonglongrightarrow> 0"
        using S1 S2 H d p True j by (rule square_rooted_offdiag_tendsto [of ok ssqrt])
      then have "(\<lambda>k. 0 - coeff (?W k) i j) \<longlonglongrightarrow> 0 - 0"
        by (intro tendsto_diff tendsto_const)
      with False show ?thesis by simp
    next
      case ge: False
      with False have "j < i" by simp
      with u i have "coeff (?W k) i j = 0" for k by (simp add: upper_triangular_iff)
      with False show ?thesis by simp
    qed
  qed
  then have "(\<lambda>k. norm ((if i = j then 1 else 0) - coeff (?W k) i j)) \<longlonglongrightarrow> 0"
    by (simp add: tendsto_norm_zero_iff)
  then show ?thesis by (simp add: c abs_s_def)
qed

lemma square_rooted_norm_small:
  fixes A :: "'a::real_normed_field matrix"
  assumes S1: "\<And>x. ok x \<Longrightarrow> ok (ssqrt x)"
    and S2: "\<And>x. ok x \<Longrightarrow> (\<lambda>k. (ssqrt ^^ k) x) \<longlonglongrightarrow> 1"
    and H: "\<forall>M. upper_triangular n M \<and> diagonal_all ok n M \<longrightarrow>
                principal_sqrt_of ssqrt n (msqrt M) M"
    and d: "has_dims A n n" and p: "diagonal_all ok n A" and e: "0 < e"
  shows "\<exists>K. \<forall>k\<ge>K. colwise_abs_sum_max
            (mat_sub (Identity (rows A) (cols A)) (square_rooted msqrt A k)) < e"
proof -
  let ?W = "square_rooted msqrt A"
  let ?g = "\<lambda>j k. \<Sum>i = 0..<n. abs_s (coeff (mat_sub (Identity n n) (?W k)) i j)"
  have dW: "has_dims (?W k) n n" for k
    using square_rooted_invariant [of ok ssqrt, OF S1 H d p, of k] by (simp add: upper_triangular_iff)
  have "\<forall>j\<in>{0..<n}. eventually (\<lambda>k. ?g j k < e) sequentially"
  proof
    fix j assume "j \<in> {0..<n}"
    then have j: "j < n" by simp
    have ent: "(\<lambda>k. abs_s (coeff (mat_sub (Identity n n) (?W k)) i j)) \<longlonglongrightarrow> 0"
      if "i \<in> {0..<n}" for i
    proof -
      from that have "i < n" by simp
      with S1 S2 H d p show ?thesis using j
        by (rule square_rooted_entry_tendsto [of ok ssqrt])
    qed
    then have "?g j \<longlonglongrightarrow> (\<Sum>i = 0..<n. 0)" by (rule tendsto_sum)
    then have "?g j \<longlonglongrightarrow> 0" by simp
    then show "eventually (\<lambda>k. ?g j k < e) sequentially"
      using e by (rule order_tendstoD)
  qed
  then have "eventually (\<lambda>k. \<forall>j\<in>{0..<n}. ?g j k < e) sequentially"
    by (intro eventually_ball_finite) simp_all
  then obtain K where K: "\<forall>k\<ge>K. \<forall>j\<in>{0..<n}. ?g j k < e"
    by (auto simp: eventually_sequentially)
  have "colwise_abs_sum_max (mat_sub (Identity (rows A) (cols A)) (?W k)) < e" if "K \<le> k" for k
  proof -
    have "has_dims (mat_sub (Identity n n) (?W k)) n n"
      by (intro has_dims_mat_sub has_dims_Identity dW)
    moreover have "?g j k < e" if "j < n" for j using K \<open>K \<le> k\<close> that by simp
    ultimately have "colwise_abs_sum_max (mat_sub (Identity n n) (?W k)) < e"
      using e by (intro colwise_abs_sum_max_less) simp_all
    then show ?thesis using d by (simp add: rows_has_dims cols_has_dims)
  qed
  then show ?thesis by blast
qed

lemma maxNormForPade_pos: "0 < maxNormForPade ty"
  by (simp add: maxNormForPade_def)

lemma computeBig_loop_principal_sqrt:
  fixes A :: "'a::real_normed_field matrix"
  assumes S1: "\<And>x. ok x \<Longrightarrow> ok (ssqrt x)"
    and S2: "\<And>x. ok x \<Longrightarrow> (\<lambda>k. (ssqrt ^^ k) x) \<longlonglongrightarrow> 1"
    and H: "\<forall>M. upper_triangular n M \<and> diagonal_all ok n M \<longrightarrow>
                principal_sqrt_of ssqrt n (msqrt M) M"
    and d: "has_dims A n n" and p: "diagonal_all ok n A"
  shows "\<exists>r. computeBig_loop ty msqrt A
            \<lparr>st_T = triangularView_Upper A, st_hasExtraSquareRoot = False,
             st_numberOfSquareRoots = 0\<rparr> = Some r"
proof -
  let ?s = "\<lparr>st_T = triangularView_Upper A, st_hasExtraSquareRoot = False,
             st_numberOfSquareRoots = 0\<rparr>"
  from square_rooted_norm_small [of ok ssqrt, OF S1 S2 H d p maxNormForPade_pos [of ty]]
  obtain K where
    K: "\<forall>k\<ge>K. colwise_abs_sum_max
            (mat_sub (Identity (rows A) (cols A)) (square_rooted msqrt A k)) < maxNormForPade ty"
    by blast
  have "\<exists>r. computeBig_loop ty msqrt A ?s = Some r \<and>
           out_numberOfSquareRoots r \<le> st_numberOfSquareRoots ?s + Suc K"
  proof (rule computeBig_loop_two_passes [of K "Suc K"])
    show "K < Suc K" by simp
    from K show "colwise_abs_sum_max (mat_sub (Identity (rows A) (cols A))
        (((\<lambda>M. triangularView_Upper (msqrt M)) ^^ K) (st_T ?s))) < maxNormForPade ty"
      by (simp add: square_rooted_def)
    from K have "colwise_abs_sum_max
            (mat_sub (Identity (rows A) (cols A)) (square_rooted msqrt A (Suc K))) < maxNormForPade ty"
      by simp
    then show "colwise_abs_sum_max (mat_sub (Identity (rows A) (cols A))
        (((\<lambda>M. triangularView_Upper (msqrt M)) ^^ Suc K) (st_T ?s))) < maxNormForPade ty"
      by (simp add: square_rooted_def)
  qed
  then show ?thesis by blast
qed

lemma computeBig_loop_real_sqrt:
  fixes A :: "real matrix"
  assumes H: "\<forall>M. upper_triangular n M \<and> positive_diagonal n M \<longrightarrow>
                principal_sqrt_of sqrt n (msqrt M) M"
    and d: "has_dims A n n" and p: "positive_diagonal n A"
  shows "\<exists>r. computeBig_loop ty msqrt A
            \<lparr>st_T = triangularView_Upper A, st_hasExtraSquareRoot = False,
             st_numberOfSquareRoots = 0\<rparr> = Some r"
proof (rule computeBig_loop_principal_sqrt [of "\<lambda>x. 0 < x" sqrt])
  show "\<And>x :: real. 0 < x \<Longrightarrow> 0 < sqrt x" by simp
  show "\<And>x :: real. 0 < x \<Longrightarrow> (\<lambda>k. (sqrt ^^ k) x) \<longlonglongrightarrow> 1" by (rule funpow_sqrt_tendsto_1)
  from H show "\<forall>M. upper_triangular n M \<and> diagonal_all (\<lambda>x. 0 < x) n M \<longrightarrow>
                principal_sqrt_of sqrt n (msqrt M) M"
    by (simp add: positive_diagonal_def)
  show "has_dims A n n" by (rule d)
  from p show "diagonal_all (\<lambda>x. 0 < x) n A" by (simp add: positive_diagonal_def)
qed

lemma computeBig_loop_complex_sqrt:
  fixes A :: "complex matrix"
  assumes H: "\<forall>M. upper_triangular n M \<and> nonzero_diagonal n M \<longrightarrow>
                principal_sqrt_of csqrt n (msqrt M) M"
    and d: "has_dims A n n" and p: "nonzero_diagonal n A"
  shows "\<exists>r. computeBig_loop ty msqrt A
            \<lparr>st_T = triangularView_Upper A, st_hasExtraSquareRoot = False,
             st_numberOfSquareRoots = 0\<rparr> = Some r"
proof (rule computeBig_loop_principal_sqrt [of "\<lambda>x. x \<noteq> 0" csqrt])
  show "\<And>x :: complex. x \<noteq> 0 \<Longrightarrow> csqrt x \<noteq> 0" by simp
  show "\<And>x :: complex. x \<noteq> 0 \<Longrightarrow> (\<lambda>k. (csqrt ^^ k) x) \<longlonglongrightarrow> 1"
    by (rule funpow_csqrt_tendsto_1)
  from H show "\<forall>M. upper_triangular n M \<and> diagonal_all (\<lambda>x. x \<noteq> 0) n M \<longrightarrow>
                principal_sqrt_of csqrt n (msqrt M) M"
    by (simp add: nonzero_diagonal_def)
  show "has_dims A n n" by (rule d)
  from p show "diagonal_all (\<lambda>x. x \<noteq> 0) n A" by (simp add: nonzero_diagonal_def)
qed

lemma length_3_conv: "length xs = 3 \<Longrightarrow> \<exists>a b c. xs = [a, b, c]"
  by (cases xs; cases "tl xs"; cases "tl (tl xs)") auto

lemma has_dims_3_conv:
  assumes "has_dims M 3 3"
  shows "\<exists>a b c d e f g h i. M = [[a, b, c], [d, e, f], [g, h, i]]"
proof -
  from assms have "length M = 3" by (simp add: has_dims_def)
  then obtain r0 r1 r2 where M: "M = [r0, r1, r2]" using length_3_conv by blast
  with assms have "length r0 = 3" "length r1 = 3" "length r2 = 3"
    by (simp_all add: has_dims_def)
  then obtain a b c d e f g h i where "r0 = [a, b, c]" "r1 = [d, e, f]" "r2 = [g, h, i]"
    using length_3_conv by metis
  with M show ?thesis by blast
qed

lemma divided_sum:
  fixes u v w :: "'a::field"
  assumes "u + v \<noteq> 0"
  shows "u * (w / (u + v)) + w / (u + v) * v = w"
proof -
  have "u * (w / (u + v)) + w / (u + v) * v = w / (u + v) * (u + v)"
    by (simp add: algebra_simps add_divide_distrib)
  also have "\<dots> = w" using assms by simp
  finally show ?thesis .
qed

lemma divided_sum3:
  fixes u v w x :: "'a::field"
  assumes "u + v \<noteq> 0"
  shows "u * ((w - x) / (u + v)) + x + (w - x) / (u + v) * v = w"
proof -
  have "u * ((w - x) / (u + v)) + x + (w - x) / (u + v) * v =
        (u * ((w - x) / (u + v)) + (w - x) / (u + v) * v) + x"
    by (simp only: ac_simps)
  also have "\<dots> = (w - x) + x" by (simp only: divided_sum [OF assms])
  finally show ?thesis by simp
qed

lemma mat_mul_upper3:
  fixes p q r x y z :: "'a::real_normed_field"
  shows "mat_mul [[p, x, z], [0, q, y], [0, 0, r]] [[p, x, z], [0, q, y], [0, 0, r]] =
     [[p * p, p * x + x * q, p * z + x * y + z * r], [0, q * q, q * y + y * r], [0, 0, r * r]]"
proof -
  have upt: "[0..<3] = [0, 1, 2 :: nat]" by (simp add: upt_rec)
  show ?thesis by (simp add: mat_mul_def rows_def cols_def coeff_def upt)
qed

lemma sqrt_triangular3_principal:
  fixes ssqrt :: "'a::real_normed_field \<Rightarrow> 'a"
  assumes sq: "\<And>x. ok x \<Longrightarrow> ssqrt x * ssqrt x = x"
    and ne: "\<And>x y. ok x \<Longrightarrow> ok y \<Longrightarrow> ssqrt x + ssqrt y \<noteq> 0"
  shows "\<forall>M. upper_triangular 3 M \<and> diagonal_all ok 3 M \<longrightarrow>
       principal_sqrt_of ssqrt 3 (sqrt_triangular3 ssqrt M) M"
proof (intro allI impI)
  fix M :: "'a matrix"
  assume h: "upper_triangular 3 M \<and> diagonal_all ok 3 M"
  then have "has_dims M 3 3" by (simp add: upper_triangular_def)
  then obtain a b c d e f g i j where M: "M = [[a, b, c], [d, e, f], [g, i, j]]"
    using has_dims_3_conv by blast
  have upt: "[0..<3] = [0, 1, 2 :: nat]" "[0..<2] = [0, 1 :: nat]" "[0..<1] = [0 :: nat]"
    by (simp_all add: upt_rec)
  from h have z: "d = 0" "g = 0" "i = 0" and pos: "ok a" "ok e" "ok j"
    by (simp_all add: M upper_triangular_def diagonal_all_def coeff_def upt)
  define sa sb sc where "sa = ssqrt a" and "sb = ssqrt e" and "sc = ssqrt j"
  have ne': "sa + sb \<noteq> 0" "sb + sc \<noteq> 0" "sa + sc \<noteq> 0"
    unfolding sa_def sb_def sc_def using pos by (simp_all only: ne not_False_eq_True)
  have sq': "sa * sa = a" "sb * sb = e" "sc * sc = j"
    unfolding sa_def sb_def sc_def using pos by (simp_all only: sq)
  have M': "M = [[a, b, c], [0, e, f], [0, 0, j]]" by (simp add: M z)
  have R: "sqrt_triangular3 ssqrt [[a, b, c], [0, e, f], [0, 0, j]] =
     [[sa, b / (sa + sb), (c - b / (sa + sb) * (f / (sb + sc))) / (sa + sc)],
      [0, sb, f / (sb + sc)], [0, 0, sc]]"
    by (simp add: sqrt_triangular3_def coeff_def Let_def sa_def sb_def sc_def)
  have e01: "sa * (b / (sa + sb)) + b / (sa + sb) * sb = b"
    using ne'(1) by (rule divided_sum)
  have e12: "sb * (f / (sb + sc)) + f / (sb + sc) * sc = f"
    using ne'(2) by (rule divided_sum)
  have e02: "sa * ((c - b / (sa + sb) * (f / (sb + sc))) / (sa + sc)) +
       b / (sa + sb) * (f / (sb + sc)) +
       (c - b / (sa + sb) * (f / (sb + sc))) / (sa + sc) * sc = c"
    using ne'(3) by (rule divided_sum3)
  have "mat_mul (sqrt_triangular3 ssqrt M) (sqrt_triangular3 ssqrt M) = M"
    unfolding M' R mat_mul_upper3 by (simp only: sq' e01 e12 e02)
  moreover have "upper_triangular 3 (sqrt_triangular3 ssqrt M)"
    unfolding M' R by (simp add: upper_triangular_def has_dims_def coeff_def upt)
  moreover have "list_all (\<lambda>i. coeff (sqrt_triangular3 ssqrt M) i i = ssqrt (coeff M i i)) [0..<3]"
    unfolding M' R by (simp add: coeff_def upt sa_def sb_def sc_def)
  ultimately show "principal_sqrt_of ssqrt 3 (sqrt_triangular3 ssqrt M) M"
    by (simp add: principal_sqrt_of_def)
qed

lemma sqrt_triangular3_real:
  "\<forall>M. upper_triangular 3 M \<and> positive_diagonal 3 M \<longrightarrow>
       principal_sqrt_of sqrt 3 (sqrt_triangular3 sqrt M) M"
  unfolding positive_diagonal_def
proof (rule sqrt_triangular3_principal)
  fix x y :: real
  assume x: "0 < x"
  then show "sqrt x * sqrt x = x" by simp
  assume y: "0 < y"
  from x y have "0 < sqrt x + sqrt y" by (simp add: add_pos_pos)
  then show "sqrt x + sqrt y \<noteq> 0" by simp
qed

lemma csqrt_add_nonzero:
  assumes a: "a \<noteq> 0" and b: "b \<noteq> 0"
  shows "csqrt a + csqrt b \<noteq> 0"
proof
  assume "csqrt a + csqrt b = 0"
  then have eq: "csqrt a = - csqrt b" by (simp add: add_eq_0_iff)
  have ra: "0 \<le> Re (csqrt a)" and rb: "0 \<le> Re (csqrt b)" by (rule Re_csqrt)+
  from eq have re: "Re (csqrt a) = - Re (csqrt b)" and im: "Im (csqrt a) = - Im (csqrt b)"
    by simp_all
  from re ra rb have r0: "Re (csqrt a) = 0" "Re (csqrt b) = 0" by linarith+
  from csqrt_principal [of a] r0 have ia: "0 \<le> Im (csqrt a)" by auto
  from csqrt_principal [of b] r0 have ib: "0 \<le> Im (csqrt b)" by auto
  from im ia ib have "Im (csqrt a) = 0" by linarith
  with r0 have "csqrt a = 0" by (simp only: complex_eq_iff zero_complex.simps)
  with a show False by simp
qed

lemma sqrt_triangular3_complex:
  "\<forall>M. upper_triangular 3 M \<and> nonzero_diagonal 3 M \<longrightarrow>
       principal_sqrt_of csqrt 3 (sqrt_triangular3 csqrt M) M"
  unfolding nonzero_diagonal_def
proof (rule sqrt_triangular3_principal)
  fix x y :: complex
  show "csqrt x * csqrt x = x" using power2_csqrt [of x] by (simp only: power2_eq_square)
  assume "x \<noteq> 0" "y \<noteq> 0"
  then show "csqrt x + csqrt y \<noteq> 0" by (rule csqrt_add_nonzero)
qed

text \<open>
  Claim C9, as the code has it: the scaling loop of \<open>computeBig\<close> has no bound on its
  passes and terminates for a triangular input whose eigenvalues are away from zero and
  have principal square roots in the scalar type. With exact arithmetic and a square-root
  routine that returns the principal triangular square root, the loop returns and
  \<open>computeBig\<close> returns: for every complex matrix whose triangular view has no zero on its
  diagonal, and for every real matrix whose triangular view has a positive diagonal. For
  every scalar type and every square-root routine: if the norm of \<open>I - W\<close> is below the
  threshold after \<open>K1\<close> and after \<open>K2 > K1\<close> square roots, the loop returns after at most
  \<open>K2\<close> square roots. Nothing else stops the loop: on an input that its square root leaves
  unchanged and whose norm is not below the threshold (the zero matrix), the loop never
  returns.
\<close>

theorem computeBig_loop_terminates:
  fixes A :: "'a::real_normed_field matrix" and msqrt :: "'a matrix \<Rightarrow> 'a matrix"
    and B :: "real matrix" and rsqrt :: "real matrix \<Rightarrow> real matrix"
    and C :: "complex matrix" and zsqrt :: "complex matrix \<Rightarrow> complex matrix"
  defines "n \<equiv> \<lambda>M. colwise_abs_sum_max (mat_sub (Identity (rows A) (cols A)) M)"
    and "s0 \<equiv> \<lparr>st_T = triangularView_Upper A, st_hasExtraSquareRoot = False,
                st_numberOfSquareRoots = 0\<rparr>"
  shows
  "(has_dims B m m \<and> positive_diagonal m B \<and>
    (\<forall>M. upper_triangular m M \<and> positive_diagonal m M \<longrightarrow>
         principal_sqrt_of sqrt m (rsqrt M) M) \<longrightarrow>
      (\<exists>r. computeBig_loop ty rsqrt B
             \<lparr>st_T = triangularView_Upper B, st_hasExtraSquareRoot = False,
              st_numberOfSquareRoots = 0\<rparr> = Some r) \<and>
      (\<exists>out. computeBig G ty rsqrt rsolve B rres q = Some out)) \<and>
   (has_dims C m' m' \<and> nonzero_diagonal m' C \<and>
    (\<forall>M. upper_triangular m' M \<and> nonzero_diagonal m' M \<longrightarrow>
         principal_sqrt_of csqrt m' (zsqrt M) M) \<longrightarrow>
      (\<exists>r. computeBig_loop ty zsqrt C
             \<lparr>st_T = triangularView_Upper C, st_hasExtraSquareRoot = False,
              st_numberOfSquareRoots = 0\<rparr> = Some r) \<and>
      (\<exists>out. computeBig G' ty zsqrt zsolve C zres q' = Some out)) \<and>
   (K1 < K2 \<and> n (square_rooted msqrt A K1) < maxNormForPade ty \<and>
    n (square_rooted msqrt A K2) < maxNormForPade ty \<longrightarrow>
      (\<exists>r. computeBig_loop ty msqrt A s0 = Some r \<and> out_numberOfSquareRoots r \<le> K2) \<and>
      (\<exists>out. computeBig F ty msqrt solve A res p = Some out)) \<and>
   (\<not> n (square_rooted msqrt A 0) < maxNormForPade ty \<and>
    square_rooted msqrt A 1 = square_rooted msqrt A 0 \<longrightarrow>
      computeBig_loop ty msqrt A s0 = None \<and> computeBig F ty msqrt solve A res p = None)"
proof (intro conjI impI)
  assume h: "has_dims B m m \<and> positive_diagonal m B \<and>
    (\<forall>M. upper_triangular m M \<and> positive_diagonal m M \<longrightarrow>
         principal_sqrt_of sqrt m (rsqrt M) M)"
  then have H: "\<forall>M. upper_triangular m M \<and> positive_diagonal m M \<longrightarrow>
                  principal_sqrt_of sqrt m (rsqrt M) M"
    and d: "has_dims B m m" and pd: "positive_diagonal m B" by simp_all
  from computeBig_loop_real_sqrt [OF H d pd, of ty]
  show r: "\<exists>r. computeBig_loop ty rsqrt B
             \<lparr>st_T = triangularView_Upper B, st_hasExtraSquareRoot = False,
              st_numberOfSquareRoots = 0\<rparr> = Some r" .
  then show "\<exists>out. computeBig G ty rsqrt rsolve B rres q = Some out"
    by (auto simp: computeBig_def)
next
  assume h: "has_dims C m' m' \<and> nonzero_diagonal m' C \<and>
    (\<forall>M. upper_triangular m' M \<and> nonzero_diagonal m' M \<longrightarrow>
         principal_sqrt_of csqrt m' (zsqrt M) M)"
  then have H: "\<forall>M. upper_triangular m' M \<and> nonzero_diagonal m' M \<longrightarrow>
                  principal_sqrt_of csqrt m' (zsqrt M) M"
    and d: "has_dims C m' m'" and pd: "nonzero_diagonal m' C" by simp_all
  from computeBig_loop_complex_sqrt [OF H d pd, of ty]
  show r: "\<exists>r. computeBig_loop ty zsqrt C
             \<lparr>st_T = triangularView_Upper C, st_hasExtraSquareRoot = False,
              st_numberOfSquareRoots = 0\<rparr> = Some r" .
  then show "\<exists>out. computeBig G' ty zsqrt zsolve C zres q' = Some out"
    by (auto simp: computeBig_def)
next
  assume h: "K1 < K2 \<and> n (square_rooted msqrt A K1) < maxNormForPade ty \<and>
    n (square_rooted msqrt A K2) < maxNormForPade ty"
  have T0: "st_T s0 = triangularView_Upper A" by (simp add: s0_def)
  from h have "\<exists>r. computeBig_loop ty msqrt A s0 = Some r \<and>
             out_numberOfSquareRoots r \<le> st_numberOfSquareRoots s0 + K2"
    unfolding n_def square_rooted_def
    by (intro computeBig_loop_two_passes [of K1 K2]) (simp_all add: T0)
  then obtain r where r: "computeBig_loop ty msqrt A s0 = Some r"
    "out_numberOfSquareRoots r \<le> K2" by (auto simp: s0_def)
  then show "\<exists>r. computeBig_loop ty msqrt A s0 = Some r \<and> out_numberOfSquareRoots r \<le> K2"
    by blast
  from r(1) show "\<exists>out. computeBig F ty msqrt solve A res p = Some out"
    by (simp add: computeBig_def s0_def)
next
  assume h: "\<not> n (square_rooted msqrt A 0) < maxNormForPade ty \<and>
    square_rooted msqrt A 1 = square_rooted msqrt A 0"
  have T0: "st_T s0 = triangularView_Upper A" by (simp add: s0_def)
  from h have none: "computeBig_loop ty msqrt A s0 = None"
    unfolding n_def square_rooted_def
    by (intro computeBig_loop_fixpoint) (simp_all add: T0)
  then show "computeBig_loop ty msqrt A s0 = None" .
  from none show "computeBig F ty msqrt solve A res p = None"
    by (simp add: computeBig_def s0_def)
qed

theorem computeBig_loop_terminates_witness:
  "\<forall>solve res p zsolve zres zp.
     (\<exists>r. computeBig_loop Double (sqrt_triangular3 sqrt) [[4, 1, 2], [0, 9, 3], [0, 0, 16]]
            \<lparr>st_T = triangularView_Upper [[4, 1, 2], [0, 9, 3], [0, 0, 16]],
             st_hasExtraSquareRoot = False, st_numberOfSquareRoots = 0\<rparr> = Some r) \<and>
     (\<exists>out. computeBig (real_scalar (exact_real_libm atanh2_real)) Double (sqrt_triangular3 sqrt)
              solve [[4, 1, 2], [0, 9, 3], [0, 0, 16]] res p = Some out) \<and>
     (\<exists>r. computeBig_loop Double (sqrt_triangular3 csqrt) [[- 4, 1, 2], [0, \<i>, 3], [0, 0, 16]]
            \<lparr>st_T = triangularView_Upper [[- 4, 1, 2], [0, \<i>, 3], [0, 0, 16]],
             st_hasExtraSquareRoot = False, st_numberOfSquareRoots = 0\<rparr> = Some r) \<and>
     (\<exists>out. computeBig (complex_scalar (exact_complex_libm atanh2_complex)) Double
              (sqrt_triangular3 csqrt) zsolve [[- 4, 1, 2], [0, \<i>, 3], [0, 0, 16]] zres zp =
              Some out) \<and>
     (\<exists>r. computeBig_loop Double (map (map sqrt)) [[1.5, 0, 0], [0, 1, 0], [0, 0, 1]]
            \<lparr>st_T = triangularView_Upper [[1.5, 0, 0], [0, 1, 0], [0, 0, 1]],
             st_hasExtraSquareRoot = False, st_numberOfSquareRoots = 0\<rparr> = Some r \<and>
          out_numberOfSquareRoots r \<le> 2) \<and>
     computeBig_loop Double (map (map sqrt)) [[0, 0, 0], [0, 0, 0], [0, 0, 0]]
            \<lparr>st_T = triangularView_Upper [[0, 0, 0], [0, 0, 0], [0, 0, 0]],
             st_hasExtraSquareRoot = False, st_numberOfSquareRoots = 0\<rparr> = None \<and>
     computeBig (real_scalar (exact_real_libm atanh2_real)) Double (map (map sqrt)) solve
              [[0, 0, 0], [0, 0, 0], [0, 0, 0]] res p = None"
proof (intro allI)
  fix solve :: "real matrix \<Rightarrow> real matrix \<Rightarrow> real matrix" and res :: "real matrix" and p :: real
    and zsolve :: "complex matrix \<Rightarrow> complex matrix \<Rightarrow> complex matrix"
    and zres :: "complex matrix" and zp :: real
  let ?B = "[[4, 1, 2], [0, 9, 3], [0, 0, 16 :: real]]"
  let ?Y = "[[- 4, 1, 2], [0, \<i>, 3], [0, 0, 16 :: complex]]"
  let ?C = "[[1.5, 0, 0], [0, 1, 0], [0, 0, 1 :: real]]"
  let ?Z = "[[0, 0, 0], [0, 0, 0], [0, 0, 0 :: real]]"
  let ?F = "real_scalar (exact_real_libm atanh2_real)"
  let ?G = "complex_scalar (exact_complex_libm atanh2_complex)"
  have s15: "sqrt 1.5 < 1.2789358995219730"
    by (rule real_less_lsqrt) (simp_all add: power2_eq_square)
  have ge1: "1 \<le> sqrt (1.5 :: real)" by simp
  have "sqrt (1.5 :: real) \<le> 1.5"
    by (rule real_le_lsqrt) (simp_all add: power2_eq_square)
  then have "sqrt (sqrt 1.5) \<le> sqrt (1.5 :: real)" by (rule real_sqrt_le_mono)
  then have s15': "sqrt (sqrt 1.5) < 1.2789358995219730" using s15 by (rule le_less_trans)
  have ge1': "1 \<le> sqrt (sqrt (1.5 :: real))" using ge1 by simp
  have W1: "square_rooted (map (map sqrt)) ?C 1 = [[sqrt 1.5, 0, 0], [0, 1, 0], [0, 0, 1]]"
    by (simp add: square_rooted_def triu_diag3)
  have W2: "square_rooted (map (map sqrt)) ?C 2 =
              [[sqrt (sqrt 1.5), 0, 0], [0, 1, 0], [0, 0, 1]]"
    by (simp add: square_rooted_def numeral_2_eq_2 triu_diag3)
  have upt: "[0..<3] = [0, 1, 2 :: nat]" by (simp add: upt_rec)
  have h0: "has_dims ?B 3 3 \<and> positive_diagonal 3 ?B \<and>
    (\<forall>M. upper_triangular 3 M \<and> positive_diagonal 3 M \<longrightarrow>
       principal_sqrt_of sqrt 3 (sqrt_triangular3 sqrt M) M)"
    using sqrt_triangular3_real
    by (simp add: has_dims_def positive_diagonal_def diagonal_all_def coeff_def upt)
  have hc: "has_dims ?Y 3 3 \<and> nonzero_diagonal 3 ?Y \<and>
    (\<forall>M. upper_triangular 3 M \<and> nonzero_diagonal 3 M \<longrightarrow>
       principal_sqrt_of csqrt 3 (sqrt_triangular3 csqrt M) M)"
    using sqrt_triangular3_complex
    by (simp add: has_dims_def nonzero_diagonal_def diagonal_all_def coeff_def upt)
  have h1: "(1 :: nat) < 2 \<and>
     colwise_abs_sum_max (mat_sub (Identity (rows ?C) (cols ?C))
        (square_rooted (map (map sqrt)) ?C 1)) < maxNormForPade Double \<and>
     colwise_abs_sum_max (mat_sub (Identity (rows ?C) (cols ?C))
        (square_rooted (map (map sqrt)) ?C 2)) < maxNormForPade Double"
    unfolding W1 W2 using s15 s15' ge1 ge1'
    by (simp add: norm_I_minus_diag3 maxNormForPade_def)
  have Z0: "square_rooted (map (map sqrt)) ?Z 0 = ?Z" "square_rooted (map (map sqrt)) ?Z 1 = ?Z"
    by (simp_all add: square_rooted_def mat_eval)
  have h2: "\<not> colwise_abs_sum_max (mat_sub (Identity (rows ?Z) (cols ?Z))
        (square_rooted (map (map sqrt)) ?Z 0)) < maxNormForPade Double \<and>
     square_rooted (map (map sqrt)) ?Z 1 = square_rooted (map (map sqrt)) ?Z 0"
    unfolding Z0 by (simp add: mat_eval maxNormForPade_def)
  from computeBig_loop_terminates
      [where B = ?B and m = 3 and rsqrt = "sqrt_triangular3 sqrt" and ty = Double and G = ?F
         and rsolve = solve and rres = res and q = p
         and C = ?Y and m' = 3 and zsqrt = "sqrt_triangular3 csqrt" and G' = ?G
         and zsolve = zsolve and zres = zres and q' = zp
         and ?K1.0 = 1 and ?K2.0 = 2 and A = ?C and msqrt = "map (map sqrt)" and F = ?F
         and solve = solve and res = res and p = p] h0 hc h1
    computeBig_loop_terminates
      [where B = ?B and m = 3 and rsqrt = "sqrt_triangular3 sqrt" and ty = Double and G = ?F
         and rsolve = solve and rres = res and q = p
         and C = ?Y and m' = 3 and zsqrt = "sqrt_triangular3 csqrt" and G' = ?G
         and zsolve = zsolve and zres = zres and q' = zp
         and ?K1.0 = 1 and ?K2.0 = 2 and A = ?Z and msqrt = "map (map sqrt)" and F = ?F
         and solve = solve and res = res and p = p] h2
  show "(\<exists>r. computeBig_loop Double (sqrt_triangular3 sqrt) ?B
            \<lparr>st_T = triangularView_Upper ?B,
             st_hasExtraSquareRoot = False, st_numberOfSquareRoots = 0\<rparr> = Some r) \<and>
     (\<exists>out. computeBig ?F Double (sqrt_triangular3 sqrt) solve ?B res p = Some out) \<and>
     (\<exists>r. computeBig_loop Double (sqrt_triangular3 csqrt) ?Y
            \<lparr>st_T = triangularView_Upper ?Y,
             st_hasExtraSquareRoot = False, st_numberOfSquareRoots = 0\<rparr> = Some r) \<and>
     (\<exists>out. computeBig ?G Double (sqrt_triangular3 csqrt) zsolve ?Y zres zp = Some out) \<and>
     (\<exists>r. computeBig_loop Double (map (map sqrt)) ?C
            \<lparr>st_T = triangularView_Upper ?C,
             st_hasExtraSquareRoot = False, st_numberOfSquareRoots = 0\<rparr> = Some r \<and>
          out_numberOfSquareRoots r \<le> 2) \<and>
     computeBig_loop Double (map (map sqrt)) ?Z
            \<lparr>st_T = triangularView_Upper ?Z,
             st_hasExtraSquareRoot = False, st_numberOfSquareRoots = 0\<rparr> = None \<and>
     computeBig ?F Double (map (map sqrt)) solve ?Z res p = None"
    by blast
qed

text \<open>
  A real input with a negative eigenvalue: the eigenvalues \<open>-4, 1, 1\<close> of \<open>diag(-4, 1, 1)\<close>
  have magnitude at least 1, but the matrix has no real upper triangular square root, the
  first pass asks every square-root routine for one (the norm of \<open>I - W\<close> is 5), and the
  loop never returns on it. For the last part the square-root routine is the one of the
  instances above. On a negative number \<^term>\<open>sqrt\<close> returns a negative number where
  \<^verbatim>\<open>std::sqrt\<close> returns NaN; with either, no pass finds the norm of \<open>I - W\<close> below the
  threshold.
\<close>

theorem computeBig_loop_negative_eigenvalue:
  "\<forall>F solve res p msqrt.
     upper_triangular 3 [[- 4, 0, 0], [0, 1, 0], [0, 0, 1 :: real]] \<and>
     1 \<le> abs_s (coeff [[- 4, 0, 0], [0, 1, 0], [0, 0, 1 :: real]] 0 0) \<and>
     1 \<le> abs_s (coeff [[- 4, 0, 0], [0, 1, 0], [0, 0, 1 :: real]] 1 1) \<and>
     1 \<le> abs_s (coeff [[- 4, 0, 0], [0, 1, 0], [0, 0, 1 :: real]] 2 2) \<and>
     \<not> (\<exists>R. upper_triangular 3 R \<and> mat_mul R R = [[- 4, 0, 0], [0, 1, 0], [0, 0, 1 :: real]]) \<and>
     computeBig_iter Double msqrt [[- 4, 0, 0], [0, 1, 0], [0, 0, 1 :: real]]
        \<lparr>st_T = triangularView_Upper [[- 4, 0, 0], [0, 1, 0], [0, 0, 1]],
         st_hasExtraSquareRoot = False, st_numberOfSquareRoots = 0\<rparr> =
       Inr \<lparr>st_T = triangularView_Upper (msqrt [[- 4, 0, 0], [0, 1, 0], [0, 0, 1]]),
            st_hasExtraSquareRoot = False, st_numberOfSquareRoots = 1\<rparr> \<and>
     computeBig_loop Double (sqrt_triangular3 sqrt) [[- 4, 0, 0], [0, 1, 0], [0, 0, 1]]
        \<lparr>st_T = triangularView_Upper [[- 4, 0, 0], [0, 1, 0], [0, 0, 1]],
         st_hasExtraSquareRoot = False, st_numberOfSquareRoots = 0\<rparr> = None \<and>
     computeBig F Double (sqrt_triangular3 sqrt) solve [[- 4, 0, 0], [0, 1, 0], [0, 0, 1]] res p =
       None"
proof (intro allI)
  fix F :: "real scalar_ops" and solve :: "real matrix \<Rightarrow> real matrix \<Rightarrow> real matrix"
    and res :: "real matrix" and p :: real and msqrt :: "real matrix \<Rightarrow> real matrix"
  let ?D = "[[- 4, 0, 0], [0, 1, 0], [0, 0, 1 :: real]]"
  let ?f = "\<lambda>M. triangularView_Upper (sqrt_triangular3 sqrt M)"
  let ?s = "\<lparr>st_T = triangularView_Upper ?D, st_hasExtraSquareRoot = False,
             st_numberOfSquareRoots = 0\<rparr>"
  have upt: "[0..<3] = [0, 1, 2 :: nat]" "[0..<2] = [0, 1 :: nat]" "[0..<1] = [0 :: nat]"
    by (simp_all add: upt_rec)
  have u: "upper_triangular 3 ?D"
    by (simp add: upper_triangular_def has_dims_def coeff_def upt)
  have mags: "1 \<le> abs_s (coeff ?D 0 0)" "1 \<le> abs_s (coeff ?D 1 1)" "1 \<le> abs_s (coeff ?D 2 2)"
    by (simp_all add: coeff_def abs_s_def)
  have noroot: "\<not> (\<exists>R. upper_triangular 3 R \<and> mat_mul R R = ?D)"
  proof
    assume "\<exists>R. upper_triangular 3 R \<and> mat_mul R R = ?D"
    then obtain R :: "real matrix" where R: "upper_triangular 3 R" and sq: "mat_mul R R = ?D"
      by blast
    from R have "has_dims R 3 3" by (simp add: upper_triangular_def)
    then obtain a b c d e f g h i where M: "R = [[a, b, c], [d, e, f], [g, h, i]]"
      using has_dims_3_conv by blast
    from R have z: "d = 0" "g = 0" "h = 0"
      by (simp_all add: M upper_triangular_def coeff_def upt)
    from sq have "a * a = - 4" unfolding M z mat_mul_upper3 by simp
    moreover have "0 \<le> a * a" by simp
    ultimately show False by simp
  qed
  have iter: "\<exists>x<0. (?f ^^ k) ?D = [[x, 0, 0], [0, 1, 0], [0, 0, 1]]" for k
  proof (induction k)
    case 0
    show ?case by simp
  next
    case (Suc k)
    then obtain x where x: "x < 0"
      and eq: "(?f ^^ k) ?D = [[x, 0, 0], [0, 1, 0], [0, 0, 1]]" by blast
    have "sqrt_triangular3 sqrt [[x, 0, 0], [0, 1, 0], [0, 0, 1]] =
            [[sqrt x, 0, 0], [0, 1, 0], [0, 0, 1]]"
      by (simp add: sqrt_triangular3_def coeff_def Let_def)
    then have "(?f ^^ Suc k) ?D = [[sqrt x, 0, 0], [0, 1, 0], [0, 0, 1]]"
      by (simp add: eq triu_diag3)
    moreover have "sqrt x < 0" using x by simp
    ultimately show ?case by blast
  qed
  have far: "\<forall>k. \<not> colwise_abs_sum_max (mat_sub (Identity (rows ?D) (cols ?D))
                  ((?f ^^ k) (st_T ?s))) < maxNormForPade Double"
  proof
    fix k
    from iter [of k] obtain x where x: "x < 0"
      and eq: "(?f ^^ k) ?D = [[x, 0, 0], [0, 1, 0], [0, 0, 1]]" by blast
    have st: "st_T ?s = ?D" by (simp add: triu_diag3)
    have "colwise_abs_sum_max (mat_sub (Identity (rows ?D) (cols ?D))
            [[x, 0, 0], [0, 1, 0], [0, 0, 1]]) = max \<bar>1 - x\<bar> 0"
      by (rule norm_I_minus_diag3)
    with x show "\<not> colwise_abs_sum_max (mat_sub (Identity (rows ?D) (cols ?D))
                  ((?f ^^ k) (st_T ?s))) < maxNormForPade Double"
      unfolding st eq by (simp add: maxNormForPade_def)
  qed
  have st0: "st_T ?s = ?D" by (simp add: triu_diag3)
  have "colwise_abs_sum_max (mat_sub (Identity (rows ?D) (cols ?D)) ?D) = max \<bar>1 - (- 4)\<bar> 0"
    by (rule norm_I_minus_diag3)
  then have "\<not> colwise_abs_sum_max (mat_sub (Identity (rows ?D) (cols ?D)) (st_T ?s))
               < maxNormForPade Double"
    unfolding st0 by (simp add: maxNormForPade_def)
  from computeBig_iter_far [OF this, of msqrt]
  have first: "computeBig_iter Double msqrt ?D ?s =
       Inr \<lparr>st_T = triangularView_Upper (msqrt ?D),
            st_hasExtraSquareRoot = False, st_numberOfSquareRoots = 1\<rparr>"
    by (simp add: triu_diag3)
  have none: "computeBig_loop Double (sqrt_triangular3 sqrt) ?D ?s = None"
    using far by (rule computeBig_loop_never_below)
  then have "computeBig F Double (sqrt_triangular3 sqrt) solve ?D res p = None"
    by (simp add: computeBig_def)
  with u mags noroot first none
  show "upper_triangular 3 ?D \<and>
     1 \<le> abs_s (coeff ?D 0 0) \<and> 1 \<le> abs_s (coeff ?D 1 1) \<and> 1 \<le> abs_s (coeff ?D 2 2) \<and>
     \<not> (\<exists>R. upper_triangular 3 R \<and> mat_mul R R = ?D) \<and>
     computeBig_iter Double msqrt ?D ?s =
       Inr \<lparr>st_T = triangularView_Upper (msqrt ?D),
            st_hasExtraSquareRoot = False, st_numberOfSquareRoots = 1\<rparr> \<and>
     computeBig_loop Double (sqrt_triangular3 sqrt) ?D ?s = None \<and>
     computeBig F Double (sqrt_triangular3 sqrt) solve ?D res p = None"
    by blast
qed

end
